theory Spec2Isabelle
  imports Main "HOL-Library.Word" "HOL-Library.Signed_Division"
begin

section \<open>Machine integers\<close>

text \<open>
  The program computes with the C++ type \<open>int\<close>: 32 bits, two's complement.  A value is a
  \<open>32 word\<close>, read through \<open>sint\<close>; addition, subtraction and multiplication wrap around,
  comparisons are the signed ones (\<open><s\<close>, \<open>\<le>s\<close>), and \<open>/\<close> and \<open>%\<close> truncate towards zero.
  The language leaves a signed operation that overflows undefined; the model takes the
  result the two's complement hardware gives, the wrapped one.
\<close>

type_synonym int32 = "32 word"

definition int_div :: "int32 \<Rightarrow> int32 \<Rightarrow> int32" where
  "int_div a b = word_of_int (sint a sdiv sint b)"

definition int_mod :: "int32 \<Rightarrow> int32 \<Rightarrow> int32" where
  "int_mod a b = word_of_int (sint a smod sint b)"

section \<open>The predecessor map\<close>

datatype error = runtime_error string

text \<open>The two exceptions of the program, by their messages.\<close>

definition InvalidRangeError :: error where
  "InvalidRangeError = runtime_error ''Cannot create tree with integers zero or lower''"

definition DataIntegrityError :: error where
  "DataIntegrityError = runtime_error ''Invalid data generated''"

type_synonym NodesMap = "int32 \<rightharpoonup> int32 list"

text \<open>The successor computed inside \<open>processValue\<close> (the local variable \<open>next\<close>).\<close>

definition next_value :: "int32 \<Rightarrow> int32" where
  "next_value v = (if int_mod v 2 = 0 then int_div v 2 else 3 * v + 1)"

text \<open>\<open>nodes[k].push_back(v)\<close>: \<open>operator[]\<close> creates an empty vector for an absent key.\<close>

definition push_back :: "NodesMap \<Rightarrow> int32 \<Rightarrow> int32 \<Rightarrow> NodesMap" where
  "push_back nodes k v = (case nodes k of None \<Rightarrow> nodes(k \<mapsto> [v]) | Some xs \<Rightarrow> nodes(k \<mapsto> xs @ [v]))"

text \<open>
  \<open>processValue\<close> mutates the map it is given; the model returns the map after the call.
  The reference it returns is always that of the entry at \<open>value\<close>, so the caller's
  \<open>push_back\<close> goes to the key \<open>next\<close>.  The recursion has no structural bound, so
  the result is an option: \<open>None\<close> stands for a call that never returns.
\<close>

partial_function (option) processValue :: "NodesMap \<Rightarrow> int32 \<Rightarrow> NodesMap option" where
  "processValue nodes v =
     (case nodes v of
        Some xs \<Rightarrow> Some nodes
      | None \<Rightarrow>
          Option.bind (processValue (nodes(v \<mapsto> [])) (next_value v))
            (\<lambda>nodes'. Some (push_back nodes' (next_value v) v)))"

text \<open>The loop \<open>for (int i = 2; i < high; i++) processValue(nodes, i)\<close>, from the counter \<open>i\<close>.\<close>

function buildUpTo_loop :: "NodesMap \<Rightarrow> int32 \<Rightarrow> int32 \<Rightarrow> NodesMap option" where
  "buildUpTo_loop nodes i high =
     (if i <s high
      then Option.bind (processValue nodes i) (\<lambda>nodes'. buildUpTo_loop nodes' (i + 1) high)
      else Some nodes)"
  by pat_completeness auto
termination
proof (relation "measure (\<lambda>(nodes, i, high). nat (sint high - sint i))")
  fix nodes :: NodesMap and i high :: int32 and nodes' :: NodesMap
  assume "i <s high"
  then have lt: "sint i < sint high"
    by (simp add: word_sless_alt)
  have "sint high < 2 ^ 31" "- (2 ^ 31) \<le> sint i"
    using sint_lt [of high] sint_ge [of i] by simp_all
  with lt have "sint (i + 1) = sint i + 1"
    by (simp add: sint_word_ariths signed_take_bit_int_eq_self)
  with lt show "((nodes', i + 1, high), (nodes, i, high))
      \<in> measure (\<lambda>(nodes, i, high). nat (sint high - sint i))"
    by simp
qed simp

text \<open>
  \<open>buildUpTo\<close> throws before it touches the map when \<open>high \<le> 0\<close>; otherwise it seeds
  the key 1 and runs the loop.
\<close>

definition buildUpTo :: "int32 \<Rightarrow> (error + NodesMap) option" where
  "buildUpTo high =
     (if high \<le>s 0 then Some (Inl InvalidRangeError)
      else map_option Inr (buildUpTo_loop (Map.empty(1 \<mapsto> [])) 2 high))"

text \<open>
  The shape of a map under construction, for a set \<open>X\<close> of keys that have (so far) not been
  pushed anywhere: the seed 1 and the keys whose call is still open.
\<close>

definition nodes_inv :: "NodesMap \<Rightarrow> int32 set \<Rightarrow> bool" where
  "nodes_inv nodes X \<longleftrightarrow>
     X \<subseteq> dom nodes \<and>
     (\<forall>k xs. nodes k = Some xs \<longrightarrow>
        distinct xs \<and> (\<forall>n\<in>set xs. next_value n = k \<and> n \<in> dom nodes \<and> n \<notin> X)) \<and>
     (\<forall>n\<in>dom nodes. n \<notin> X \<longrightarrow> (\<exists>xs. nodes (next_value n) = Some xs \<and> n \<in> set xs))"

text \<open>The values on the machine trajectory of \<open>i\<close>, which stops at 1.\<close>

inductive trajectory :: "int32 \<Rightarrow> int32 \<Rightarrow> bool" for i :: int32 where
  start: "trajectory i i"
| step: "trajectory i v \<Longrightarrow> v \<noteq> 1 \<Longrightarrow> trajectory i (next_value v)"

text \<open>
  The Collatz map of the specification, on the unbounded integers, and the values on the
  trajectory of \<open>i\<close> (the iterates of \<open>i\<close> up to the first 1).
\<close>

definition collatz :: "int \<Rightarrow> int" where
  "collatz n = (if even n then n div 2 else 3 * n + 1)"

inductive collatz_reaches :: "int \<Rightarrow> int \<Rightarrow> bool" for i :: int where
  start: "collatz_reaches i i"
| step: "collatz_reaches i v \<Longrightarrow> v \<noteq> 1 \<Longrightarrow> collatz_reaches i (collatz v)"

text \<open>
  The key set the specification gives for \<open>buildUpTo high\<close>: 1, the range
  \<open>2 \<le> i < high\<close>, and the trajectory values of that range that are at least \<open>high\<close>.
\<close>

definition stated_keys :: "int \<Rightarrow> int set" where
  "stated_keys high =
     {1} \<union> {i. 2 \<le> i \<and> i < high} \<union>
     {v. high \<le> v \<and> (\<exists>i. 2 \<le> i \<and> i < high \<and> collatz_reaches i v)}"

text \<open>No step of a trajectory that starts in the range leaves the type \<open>int\<close>.\<close>

definition fits_int :: "int \<Rightarrow> bool" where
  "fits_int high \<longleftrightarrow>
     (\<forall>i v. 2 \<le> i \<and> i < high \<and> collatz_reaches i v \<longrightarrow> v \<le> 2147483647)"

text \<open>
  \<open>steps k v\<close> is the value \<open>k\<close> machine steps after \<open>v\<close>, or \<open>None\<close> when the
  trajectory has met 1 before.
\<close>

fun steps :: "nat \<Rightarrow> int32 \<Rightarrow> int32 option" where
  "steps 0 v = Some v"
| "steps (Suc k) v = (if v = 1 then None else steps k (next_value v))"

section \<open>The layout tree\<close>

text \<open>
  A \<open>Node\<close> object: the value, the children (\<open>above_\<close>), the assigned position and the
  computed width.  The two static members of the class are the record \<open>statics\<close>, passed
  through every function that writes them.
\<close>

datatype Node =
  Node (value_of: int32) (above: "Node list") (positionX: int32) (positionY: int32) (width: int32)

record statics =
  highestX :: int32
  highestY :: int32

definition nodeHeight :: int32 where
  "nodeHeight = 20"

definition nodeSpacing :: int32 where
  "nodeSpacing = 10"

text \<open>The text a stream writes for an \<open>int\<close>: a minus sign for a negative value, then the decimal digits.\<close>

fun digits :: "nat \<Rightarrow> string" where
  "digits n = (if n < 10 then [char_of (48 + n)] else digits (n div 10) @ [char_of (48 + n mod 10)])"

declare digits.simps [simp del]

definition to_text :: "int32 \<Rightarrow> string" where
  "to_text v = (if sint v < 0 then CHR ''-'' # digits (nat (- sint v)) else digits (nat (sint v)))"

text \<open>\<open>textWidth\<close> returns \<open>8 * text.size()\<close>, an unsigned product converted to \<open>int\<close>.\<close>

definition textWidth :: "Node \<Rightarrow> int32" where
  "textWidth n = word_of_nat (8 * length (to_text (value_of n)))"

text \<open>\<open>std::max\<close> and \<open>std::min\<close> on \<open>int\<close>.\<close>

definition std_max :: "int32 \<Rightarrow> int32 \<Rightarrow> int32" where
  "std_max a b = (if a <s b then b else a)"

definition std_min :: "int32 \<Rightarrow> int32 \<Rightarrow> int32" where
  "std_min a b = (if b <s a then b else a)"

text \<open>
  \<open>calculateWidth\<close> stores the width in the node and in every node above it, and returns
  it; the model returns the node after the call, whose field \<open>width\<close> is the returned value.
  The start value \<open>(above_.size() - 1) * nodeSpacing\<close> is an unsigned product converted to
  \<open>int\<close>; the loop adds the children's widths in order.
\<close>

fun calculateWidth :: "Node \<Rightarrow> Node" where
  "calculateWidth (Node v ab px py w) =
     (let textWidthVal = textWidth (Node v ab px py w) in
      if ab = [] then Node v ab px py textWidthVal
      else
        let ab' = map calculateWidth ab;
            w' = foldl (\<lambda>acc x. acc + width x) (word_of_nat ((length ab - 1) * unat nodeSpacing)) ab'
        in Node v ab' px py (if w' <s textWidthVal then textWidthVal else w'))"

text \<open>
  The constructor \<open>Node(value, nodes)\<close>, and its loop over the stored sequence.  It throws
  when \<open>value\<close> is not a key, and recurses without a bound that the code states, so the
  model counts nesting depth down from a fuel: \<open>None\<close> is a construction that has not
  returned within it.  The positions start at 0; \<open>width\<close> has no initialiser and is first
  written by \<open>calculateWidth\<close> (the model starts it at 0).
\<close>

fun Node_ctor :: "nat \<Rightarrow> int32 \<Rightarrow> NodesMap \<Rightarrow> (error + Node) option"
  and above_ctor :: "nat \<Rightarrow> int32 list \<Rightarrow> NodesMap \<Rightarrow> (error + Node list) option" where
  "Node_ctor 0 v nodes = None"
| "Node_ctor (Suc fuel) v nodes =
     (case nodes v of
        None \<Rightarrow> Some (Inl DataIntegrityError)
      | Some vs \<Rightarrow>
          (case above_ctor fuel vs nodes of
             None \<Rightarrow> None
           | Some (Inl e) \<Rightarrow> Some (Inl e)
           | Some (Inr ab) \<Rightarrow> Some (Inr (calculateWidth (Node v ab 0 0 0)))))"
| "above_ctor fuel [] nodes = Some (Inr [])"
| "above_ctor fuel (v # vs) nodes =
     (case Node_ctor fuel v nodes of
        None \<Rightarrow> None
      | Some (Inl e) \<Rightarrow> Some (Inl e)
      | Some (Inr n) \<Rightarrow>
          (case above_ctor fuel vs nodes of
             None \<Rightarrow> None
           | Some (Inl e) \<Rightarrow> Some (Inl e)
           | Some (Inr ns) \<Rightarrow> Some (Inr (n # ns))))"

text \<open>
  \<open>setPositions\<close>, and its loop from the child list that is left and the running
  \<open>offsetX\<close>.  Both return the node (the children) after the call and the statics.
\<close>

fun setPositions :: "Node \<Rightarrow> int32 \<Rightarrow> int32 \<Rightarrow> statics \<Rightarrow> Node \<times> statics"
  and setPositions_loop ::
    "Node list \<Rightarrow> int32 \<Rightarrow> int32 \<Rightarrow> int32 \<Rightarrow> statics \<Rightarrow> Node list \<times> statics" where
  "setPositions (Node v ab px py w) x y st =
     (let (ab', st') = setPositions_loop ab x y (int_div (- w) 2) st
      in (Node v ab' x y w, st'))"
| "setPositions_loop [] x y offsetX st = ([], st)"
| "setPositions_loop (c # cs) x y offsetX st =
     (let posX = x + offsetX + int_div (width c) 2;
          posY = y - nodeSpacing - nodeHeight;
          offsetX' = offsetX + (width c + nodeSpacing);
          st1 = st\<lparr>highestX := std_max (highestX st) posX, highestY := std_min (highestY st) posY\<rparr>;
          (c', st2) = setPositions c posX posY st1;
          (cs', st3) = setPositions_loop cs x y offsetX' st2
      in (c' # cs', st3))"

text \<open>All nodes strictly above a node, in the order \<open>draw\<close> visits them.\<close>

fun descendants :: "Node \<Rightarrow> Node list" where
  "descendants (Node v ab px py w) = concat (map (\<lambda>c. c # descendants c) ab)"

text \<open>
  The placement as the specification words it: child \<open>i\<close> at
  \<open>(x + offset + w\<^sub>i / 2, y - (rowHeight + spacing))\<close>, the offset advanced by
  \<open>w\<^sub>i + spacing\<close> after each child.
\<close>

fun stated_positions :: "int32 \<Rightarrow> int32 \<Rightarrow> int32 \<Rightarrow> int32 list \<Rightarrow> (int32 \<times> int32) list" where
  "stated_positions x y offset [] = []"
| "stated_positions x y offset (w # ws) =
     (x + offset + int_div w 2, y - (nodeHeight + nodeSpacing))
       # stated_positions x y (offset + (w + nodeSpacing)) ws"

text \<open>
  The width as the specification states it: the text width without children, otherwise the
  larger of the text width and the children's widths plus the spacing between them.
\<close>

definition children_span :: "Node \<Rightarrow> int32" where
  "children_span n = sum_list (map width (above n)) + nodeSpacing * word_of_nat (length (above n) - 1)"

definition stated_width :: "Node \<Rightarrow> int32" where
  "stated_width n = (if above n = [] then textWidth n else std_max (textWidth n) (children_span n))"

text \<open>The same span over the unbounded integers.\<close>

definition exact_span :: "Node \<Rightarrow> int" where
  "exact_span n = (\<Sum>c\<leftarrow>above n. sint (width c)) + 10 * (int (length (above n)) - 1)"

text \<open>
  The values the constructor can come to when it starts at \<open>r\<close>: \<open>r\<close> itself and, from
  a value that is a key, the members of its sequence.
\<close>

inductive reach :: "NodesMap \<Rightarrow> int32 \<Rightarrow> int32 \<Rightarrow> bool" for nodes :: NodesMap and r :: int32 where
  root: "reach nodes r r"
| child: "reach nodes r u \<Longrightarrow> nodes u = Some vs \<Longrightarrow> v \<in> set vs \<Longrightarrow> reach nodes r v"

text \<open>
  The course of the constructor, stated without fuel.  \<open>builds nodes v\<close>: the construction
  at \<open>v\<close> returns a tree, which is when \<open>v\<close> is a key and the construction at every member
  of its sequence returns a tree.  \<open>encountered nodes r v\<close>: the construction that starts at
  \<open>r\<close> calls the constructor at \<open>v\<close>; the loop over a sequence comes to a member only after
  the constructions at all members before it have returned a tree.
\<close>

inductive builds :: "NodesMap \<Rightarrow> int32 \<Rightarrow> bool" for nodes :: NodesMap where
  node: "nodes v = Some vs \<Longrightarrow> (\<forall>x\<in>set vs. builds nodes x) \<Longrightarrow> builds nodes v"

inductive encountered :: "NodesMap \<Rightarrow> int32 \<Rightarrow> int32 \<Rightarrow> bool"
  for nodes :: NodesMap and r :: int32 where
  root: "encountered nodes r r"
| child: "encountered nodes r u \<Longrightarrow> nodes u = Some (xs @ v # ys) \<Longrightarrow>
          (\<forall>x\<in>set xs. builds nodes x) \<Longrightarrow> encountered nodes r v"

text \<open>
  A chain of nested constructor calls under the root 1, innermost first: each value is a
  member of the sequence stored at the next one, and the last one is 1.
\<close>

fun nesting :: "NodesMap \<Rightarrow> int32 list \<Rightarrow> bool" where
  "nesting nodes [] = False"
| "nesting nodes [v] = (v = 1)"
| "nesting nodes (v # u # us) = ((\<exists>vs. nodes u = Some vs \<and> v \<in> set vs) \<and> nesting nodes (u # us))"

text \<open>
  The width of a tree over the unbounded integers, by the rule of \<open>calculateWidth\<close>; and
  the trees in which every stored width is that integer.
\<close>

fun exact_width :: "Node \<Rightarrow> int" where
  "exact_width (Node v ab px py w) =
     (let tw = 8 * int (length (to_text v)) in
      if ab = [] then tw
      else max tw (sum_list (map exact_width ab) + 10 * (int (length ab) - 1)))"

fun widths_exact :: "Node \<Rightarrow> bool" where
  "widths_exact (Node v ab px py w) \<longleftrightarrow>
     sint w = exact_width (Node v ab px py w) \<and> (\<forall>c\<in>set ab. widths_exact c)"

text \<open>
  No two children of \<open>p\<close> overlap: their x positions are at least half the sum of their
  widths apart (positions and widths read as integers, the half truncated).
\<close>

definition siblings_apart :: "Node \<Rightarrow> bool" where
  "siblings_apart p \<longleftrightarrow>
     (\<forall>i j. i < j \<and> j < length (above p) \<longrightarrow>
        (sint (width (above p ! i)) + sint (width (above p ! j))) sdiv 2
          \<le> \<bar>sint (positionX (above p ! i)) - sint (positionX (above p ! j))\<bar>)"

section \<open>Image generation and the command line\<close>

text \<open>
  \<open>generateImage\<close> builds the tree from the root 1, places it at \<open>(0, 0)\<close>, computes the
  canvas from the root's width and \<open>highestY\<close>, and hands everything to the graphics library.
  The library calls are the parameter \<open>render\<close> (canvas width and height, the two global
  offsets, the placed tree, the file name), which returns the exception it throws, if any.
  The result is the exception that leaves \<open>generateImage\<close>, if any.
\<close>

definition imagePadding :: int32 where
  "imagePadding = 80"

definition generateImage ::
  "nat \<Rightarrow> (int32 \<Rightarrow> int32 \<Rightarrow> int32 \<Rightarrow> int32 \<Rightarrow> Node \<Rightarrow> string \<Rightarrow> error option) \<Rightarrow>
   NodesMap \<Rightarrow> string \<Rightarrow> error option option" where
  "generateImage fuel render nodes outFileName =
     (case Node_ctor fuel 1 nodes of
        None \<Rightarrow> None
      | Some (Inl e) \<Rightarrow> Some (Some e)
      | Some (Inr rootNode) \<Rightarrow>
          (let (rootNode', st) = setPositions rootNode 0 0 \<lparr>highestX = 0, highestY = 0\<rparr>;
               imageWidth = width rootNode' + imagePadding * 2;
               imageHeight = imagePadding * 2 - highestY st;
               globalOffsetX = int_div imageWidth 2;
               globalOffsetY = imageHeight - imagePadding
           in Some (render imageWidth imageHeight globalOffsetX globalOffsetY rootNode' outFileName)))"

text \<open>
  \<open>main\<close> on the argument vector (the program name first).  The stream extraction
  \<open>iss >> upTo\<close> is the parameter \<open>extract\<close>: the value read, or \<open>None\<close> when the
  extraction fails.  The process ends with an exit code, or by an exception nobody catches.
\<close>

datatype outcome = Exit int32 | Uncaught error

definition main ::
  "nat \<Rightarrow> (string \<Rightarrow> int32 option) \<Rightarrow>
   (int32 \<Rightarrow> int32 \<Rightarrow> int32 \<Rightarrow> int32 \<Rightarrow> Node \<Rightarrow> string \<Rightarrow> error option) \<Rightarrow>
   string list \<Rightarrow> outcome option" where
  "main fuel extract render argv =
     (if length argv \<noteq> 3 then Some (Exit 1)
      else
        case extract (argv ! 1) of
          None \<Rightarrow> Some (Exit 1)
        | Some upTo \<Rightarrow>
            if upTo \<le>s 0 then Some (Exit 1)
            else
              (case buildUpTo upTo of
                 None \<Rightarrow> None
               | Some (Inl e) \<Rightarrow> Some (Uncaught e)
               | Some (Inr nodes) \<Rightarrow>
                   (case generateImage fuel render nodes (argv ! 2) of
                      None \<Rightarrow> None
                    | Some (Some e) \<Rightarrow> Some (Uncaught e)
                    | Some None \<Rightarrow> Some (Exit 0))))"

section \<open>Properties of the predecessor map\<close>

lemmas next_eval = next_value_def int_mod_def int_div_def signed_divide_int_def signed_modulo_int_def

lemma processValue_hit: "nodes v = Some xs \<Longrightarrow> processValue nodes v = Some nodes"
  by (subst processValue.simps) simp

lemma processValue_miss: "nodes v = None \<Longrightarrow> processValue nodes v =
   Option.bind (processValue (nodes(v \<mapsto> [])) (next_value v)) (\<lambda>nodes'. Some (push_back nodes' (next_value v) v))"
  by (subst processValue.simps) simp

lemma card_compl_dom_upd:
  fixes nodes :: NodesMap
  assumes "nodes v = None"
  shows "card (- dom (nodes(v \<mapsto> xs))) < card (- dom nodes)"
proof -
  have "- dom (nodes(v \<mapsto> xs)) \<subset> - dom nodes" using assms by auto
  then show ?thesis by (intro psubset_card_mono) simp_all
qed

lemma processValue_induct [case_names hit miss]:
  assumes hit: "\<And>nodes v xs. nodes v = Some xs \<Longrightarrow> P nodes v"
      and miss: "\<And>nodes v. nodes v = None \<Longrightarrow> P (nodes(v \<mapsto> [])) (next_value v) \<Longrightarrow> P nodes v"
  shows "P (nodes :: NodesMap) v"
proof (induction "card (- dom nodes)" arbitrary: nodes v rule: less_induct)
  case (less nodes v)
  show ?case
  proof (cases "nodes v")
    case None
    have "card (- dom (nodes(v \<mapsto> []))) < card (- dom nodes)"
      using None by (rule card_compl_dom_upd)
    then have "P (nodes(v \<mapsto> [])) (next_value v)" by (rule less)
    with None show ?thesis by (rule miss)
  next
    case (Some xs)
    then show ?thesis by (rule hit)
  qed
qed

lemma processValue_total: "\<exists>nodes'. processValue nodes v = Some nodes'"
proof (induction nodes v rule: processValue_induct)
  case (hit nodes v xs)
  then show ?case by (simp add: processValue_hit)
next
  case (miss nodes v)
  then obtain n where "processValue (nodes(v \<mapsto> [])) (next_value v) = Some n" by blast
  with miss(1) show ?case by (simp add: processValue_miss)
qed

lemma processValue_missE:
  assumes "nodes v = None" "processValue nodes v = Some nodes'"
  obtains nodes2 where "processValue (nodes(v \<mapsto> [])) (next_value v) = Some nodes2"
    and "nodes' = push_back nodes2 (next_value v) v"
  using assms by (auto simp: processValue_miss bind_eq_Some_conv)

lemma dom_push_back: "dom (push_back nodes k v) = insert k (dom nodes)"
  by (auto simp: push_back_def split: option.splits)

lemma push_back_other: "k' \<noteq> k \<Longrightarrow> push_back nodes k v k' = nodes k'"
  by (simp add: push_back_def split: option.splits)

lemma push_back_same_Some: "nodes k = Some xs \<Longrightarrow> push_back nodes k v k = Some (xs @ [v])"
  by (simp add: push_back_def)

lemma processValue_dom_mono:
  "processValue nodes v = Some nodes' \<Longrightarrow> dom nodes \<subseteq> dom nodes' \<and> v \<in> dom nodes'"
proof (induction nodes v arbitrary: nodes' rule: processValue_induct)
  case (hit nodes v xs)
  then show ?case by (auto simp: processValue_hit)
next
  case (miss nodes v)
  from miss(1,3) obtain nodes2 where
    rec: "processValue (nodes(v \<mapsto> [])) (next_value v) = Some nodes2"
    and res: "nodes' = push_back nodes2 (next_value v) v"
    by (rule processValue_missE)
  from miss(2) [OF rec] have "dom (nodes(v \<mapsto> [])) \<subseteq> dom nodes2"
    and nx: "next_value v \<in> dom nodes2" by blast+
  then have "insert v (dom nodes) \<subseteq> dom nodes2" by simp
  with nx show ?case
    unfolding res dom_push_back by blast
qed

lemma processValue_extends:
  "processValue nodes v = Some nodes' \<Longrightarrow> nodes k = Some xs \<Longrightarrow> \<exists>ys. nodes' k = Some (xs @ ys)"
proof (induction nodes v arbitrary: nodes' xs rule: processValue_induct)
  case (hit nodes v zs)
  then show ?case by (auto simp: processValue_hit)
next
  case (miss nodes v)
  from miss(1,3) obtain nodes2 where
    rec: "processValue (nodes(v \<mapsto> [])) (next_value v) = Some nodes2"
    and res: "nodes' = push_back nodes2 (next_value v) v"
    by (rule processValue_missE)
  from miss(1,4) have "k \<noteq> v" by auto
  with miss(4) have "(nodes(v \<mapsto> [])) k = Some xs" by simp
  from miss(2) [OF rec this] obtain ys where ys: "nodes2 k = Some (xs @ ys)" by blast
  show ?case
  proof (cases "k = next_value v")
    case True
    with ys show ?thesis by (simp add: res push_back_def)
  next
    case False
    with ys show ?thesis by (simp add: res push_back_other)
  qed
qed

lemma nodes_inv_elem:
  assumes "nodes_inv nodes X" "nodes k = Some xs" "n \<in> set xs"
  shows "next_value n = k" "n \<in> dom nodes" "n \<notin> X"
  using assms unfolding nodes_inv_def by blast+

lemma nodes_inv_distinct: "nodes_inv nodes X \<Longrightarrow> nodes k = Some xs \<Longrightarrow> distinct xs"
  unfolding nodes_inv_def by blast

lemma nodes_inv_pushed:
  assumes "nodes_inv nodes X" "n \<in> dom nodes" "n \<notin> X"
  shows "\<exists>xs. nodes (next_value n) = Some xs \<and> n \<in> set xs"
  using assms unfolding nodes_inv_def by blast

lemma nodes_inv_sub: "nodes_inv nodes X \<Longrightarrow> X \<subseteq> dom nodes"
  unfolding nodes_inv_def by blast

lemma processValue_inv:
  "processValue nodes v = Some nodes' \<Longrightarrow> nodes_inv nodes X \<Longrightarrow> nodes_inv nodes' X"
proof (induction nodes v arbitrary: nodes' X rule: processValue_induct)
  case (hit nodes v xs)
  then show ?case by (auto simp: processValue_hit)
next
  case (miss nodes v)
  from miss(1,3) obtain nodes2 where
    rec: "processValue (nodes(v \<mapsto> [])) (next_value v) = Some nodes2"
    and res: "nodes' = push_back nodes2 (next_value v) v"
    by (rule processValue_missE)
  let ?n1 = "nodes(v \<mapsto> [])"
  have vX: "v \<notin> X" using miss(1,4) by (auto simp: nodes_inv_def)
  have inv1: "nodes_inv ?n1 (insert v X)"
    unfolding nodes_inv_def
  proof (intro conjI allI impI ballI)
    show "insert v X \<subseteq> dom ?n1" using miss(4) by (auto simp: nodes_inv_def)
  next
    fix k xs assume "?n1 k = Some xs"
    then show "distinct xs" using miss(4) by (auto simp: nodes_inv_def split: if_splits)
  next
    fix k xs n assume "?n1 k = Some xs" "n \<in> set xs"
    then have k: "nodes k = Some xs" by (auto split: if_splits)
    with \<open>n \<in> set xs\<close> miss(4) have *: "next_value n = k" "n \<in> dom nodes" "n \<notin> X"
      by (auto simp: nodes_inv_def)
    with miss(1) have "n \<noteq> v" by auto
    with * show "next_value n = k" "n \<in> dom ?n1" "n \<notin> insert v X" by auto
  next
    fix n assume "n \<in> dom ?n1" "n \<notin> insert v X"
    then have "n \<in> dom nodes" "n \<notin> X" by auto
    with miss(4) obtain xs where xs: "nodes (next_value n) = Some xs" "n \<in> set xs"
      unfolding nodes_inv_def by blast
    with miss(1) have "next_value n \<noteq> v" by auto
    with xs show "\<exists>xs. ?n1 (next_value n) = Some xs \<and> n \<in> set xs" by simp
  qed
  from miss(2) [OF rec inv1] have inv2: "nodes_inv nodes2 (insert v X)" .
  from processValue_dom_mono [OF rec] have "dom ?n1 \<subseteq> dom nodes2"
    and dm2: "next_value v \<in> dom nodes2" by blast+
  then have "insert v (dom nodes) \<subseteq> dom nodes2" by simp
  note dm = this dm2
  then obtain ns where ns: "nodes2 (next_value v) = Some ns" by blast
  have v2: "v \<in> dom nodes2" using dm by blast
  have vns: "v \<notin> set ns" using nodes_inv_elem(3) [OF inv2 ns] by blast
  have res': "nodes' = nodes2(next_value v \<mapsto> ns @ [v])"
    by (simp add: res push_back_def ns)
  have dom': "dom nodes' = dom nodes2" using dm by (auto simp: res')
  have lists: "(xs = ns @ [v] \<and> k = next_value v) \<or> (nodes2 k = Some xs \<and> k \<noteq> next_value v)"
    if "nodes' k = Some xs" for k xs
    using that by (auto simp: res' split: if_splits)
  show ?case
    unfolding nodes_inv_def
  proof (intro conjI allI impI ballI)
    show "X \<subseteq> dom nodes'" using nodes_inv_sub [OF inv2] unfolding dom' by blast
  next
    fix k xs assume kx: "nodes' k = Some xs"
    from lists [OF kx] show "distinct xs"
      using nodes_inv_distinct [OF inv2 ns] vns nodes_inv_distinct [OF inv2, of k xs] by auto
  next
    fix k xs n assume kx: "nodes' k = Some xs" and n: "n \<in> set xs"
    from lists [OF kx] have "next_value n = k \<and> n \<in> dom nodes2 \<and> n \<notin> X"
    proof
      assume a: "xs = ns @ [v] \<and> k = next_value v"
      show ?thesis
      proof (cases "n = v")
        case True
        with a v2 vX show ?thesis by simp
      next
        case False
        with a n have "n \<in> set ns" by simp
        from nodes_inv_elem [OF inv2 ns this] a show ?thesis by simp
      qed
    next
      assume a: "nodes2 k = Some xs \<and> k \<noteq> next_value v"
      then have "nodes2 k = Some xs" ..
      from nodes_inv_elem [OF inv2 this n] show ?thesis by simp
    qed
    then show "next_value n = k" "n \<in> dom nodes'" "n \<notin> X"
      unfolding dom' by simp_all
  next
    fix n assume n: "n \<in> dom nodes'" "n \<notin> X"
    then have n2: "n \<in> dom nodes2" unfolding dom' by simp
    show "\<exists>xs. nodes' (next_value n) = Some xs \<and> n \<in> set xs"
    proof (cases "n = v")
      case True
      then show ?thesis by (simp add: res')
    next
      case False
      with n have "n \<notin> insert v X" by simp
      from nodes_inv_pushed [OF inv2 n2 this]
      obtain xs where xs: "nodes2 (next_value n) = Some xs" "n \<in> set xs" by blast
      then show ?thesis using ns by (auto simp: res')
    qed
  qed
qed

declare buildUpTo_loop.simps [simp del]

lemma sint_succ: "i <s high \<Longrightarrow> sint (i + 1 :: int32) = sint i + 1"
proof -
  assume "i <s high"
  then have lt: "sint i < sint high"
    by (simp add: word_sless_alt)
  have "sint high < 2 ^ 31" "- (2 ^ 31) \<le> sint i"
    using sint_lt [of high] sint_ge [of i] by simp_all
  with lt show ?thesis
    by (simp add: sint_word_ariths signed_take_bit_int_eq_self)
qed

lemma buildUpTo_loop_stop: "\<not> i <s high \<Longrightarrow> buildUpTo_loop nodes i high = Some nodes"
  by (subst buildUpTo_loop.simps) simp

lemma buildUpTo_loop_step:
  "i <s high \<Longrightarrow> processValue nodes i = Some nodes' \<Longrightarrow>
   buildUpTo_loop nodes i high = buildUpTo_loop nodes' (i + 1) high"
  by (subst buildUpTo_loop.simps) simp

lemma buildUpTo_loop_induct [case_names stop step]:
  assumes stop: "\<And>nodes i high. \<not> i <s high \<Longrightarrow> P nodes i high"
      and step: "\<And>nodes i high nodes'. i <s high \<Longrightarrow> processValue nodes i = Some nodes' \<Longrightarrow>
                   P nodes' (i + 1) high \<Longrightarrow> P nodes i high"
  shows "P nodes i high"
proof (induction nodes i high rule: buildUpTo_loop.induct)
  case (1 nodes i high)
  show ?case
  proof (cases "i <s high")
    case True
    obtain nodes' where pv: "processValue nodes i = Some nodes'"
      using processValue_total by blast
    from True pv "1" [OF True pv] show ?thesis by (rule step)
  next
    case False
    then show ?thesis by (rule stop)
  qed
qed

lemma buildUpTo_loop_total: "\<exists>m. buildUpTo_loop nodes i high = Some m"
proof (induction nodes i high rule: buildUpTo_loop_induct)
  case (stop nodes i high)
  then show ?case by (simp add: buildUpTo_loop_stop)
next
  case (step nodes i high nodes')
  then show ?case by (simp add: buildUpTo_loop_step)
qed

lemma buildUpTo_loop_inv:
  "buildUpTo_loop nodes i high = Some m \<Longrightarrow> nodes_inv nodes X \<Longrightarrow> nodes_inv m X"
proof (induction nodes i high rule: buildUpTo_loop_induct)
  case (stop nodes i high)
  then show ?case by (simp add: buildUpTo_loop_stop)
next
  case (step nodes i high nodes')
  from step(4) have "buildUpTo_loop nodes' (i + 1) high = Some m"
    by (simp add: buildUpTo_loop_step [OF step(1,2)])
  moreover from step(2,5) have "nodes_inv nodes' X" by (rule processValue_inv)
  ultimately show ?case by (rule step(3))
qed

lemma buildUpTo_loop_extends:
  "buildUpTo_loop nodes i high = Some m \<Longrightarrow> nodes k = Some xs \<Longrightarrow> \<exists>ys. m k = Some (xs @ ys)"
proof (induction nodes i high arbitrary: xs rule: buildUpTo_loop_induct)
  case (stop nodes i high)
  then show ?case by (simp add: buildUpTo_loop_stop)
next
  case (step nodes i high nodes')
  from step(4) have run: "buildUpTo_loop nodes' (i + 1) high = Some m"
    by (simp add: buildUpTo_loop_step [OF step(1,2)])
  from processValue_extends [OF step(2,5)] obtain ys where "nodes' k = Some (xs @ ys)" ..
  from step(3) [OF run this] obtain zs where "m k = Some ((xs @ ys) @ zs)" ..
  then show ?case by simp
qed

lemma buildUpTo_loop_dom_lower:
  "buildUpTo_loop nodes i high = Some m \<Longrightarrow>
   dom nodes \<subseteq> dom m \<and> (\<forall>j. sint i \<le> sint j \<and> sint j < sint high \<longrightarrow> j \<in> dom m)"
proof (induction nodes i high rule: buildUpTo_loop_induct)
  case (stop nodes i high)
  then show ?case by (auto simp: buildUpTo_loop_stop word_sless_alt)
next
  case (step nodes i high nodes')
  from step(4) have run: "buildUpTo_loop nodes' (i + 1) high = Some m"
    by (simp add: buildUpTo_loop_step [OF step(1,2)])
  from step(3) [OF run] have sub: "dom nodes' \<subseteq> dom m"
    and rng: "\<And>j. sint (i + 1) \<le> sint j \<Longrightarrow> sint j < sint high \<Longrightarrow> j \<in> dom m" by blast+
  from processValue_dom_mono [OF step(2)] have pv: "dom nodes \<subseteq> dom nodes'" "i \<in> dom nodes'"
    by blast+
  have "j \<in> dom m" if "sint i \<le> sint j" "sint j < sint high" for j
  proof (cases "j = i")
    case True
    with pv sub show ?thesis by blast
  next
    case False
    then have "sint j \<noteq> sint i" by (auto dest: signed_word_eqI)
    with that have "sint (i + 1) \<le> sint j" by (simp add: sint_succ [OF step(1)])
    then show ?thesis using that(2) by (rule rng)
  qed
  with pv sub show ?case by blast
qed

lemma trajectory_next:
  assumes "trajectory (next_value v) w" "v \<noteq> 1"
  shows "trajectory v w"
  using assms(1)
proof (induction rule: trajectory.induct)
  case start
  from trajectory.start [of v] assms(2) show ?case by (rule trajectory.step)
next
  case (step u)
  then show ?case by (blast intro: trajectory.step)
qed

lemma processValue_dom_upper:
  "processValue nodes v = Some nodes' \<Longrightarrow> 1 \<in> dom nodes \<Longrightarrow> w \<in> dom nodes' \<Longrightarrow>
   w \<in> dom nodes \<or> trajectory v w"
proof (induction nodes v arbitrary: nodes' rule: processValue_induct)
  case (hit nodes v xs)
  then show ?case by (simp add: processValue_hit)
next
  case (miss nodes v)
  from miss(1,3) obtain nodes2 where
    rec: "processValue (nodes(v \<mapsto> [])) (next_value v) = Some nodes2"
    and res: "nodes' = push_back nodes2 (next_value v) v"
    by (rule processValue_missE)
  from miss(1,4) have v1: "v \<noteq> 1" by auto
  from processValue_dom_mono [OF rec] have "next_value v \<in> dom nodes2" by blast
  with miss(5) have w2: "w \<in> dom nodes2" by (auto simp: res dom_push_back)
  from miss(4) have "1 \<in> dom (nodes(v \<mapsto> []))" by simp
  from miss(2) [OF rec this w2] have "w \<in> dom (nodes(v \<mapsto> [])) \<or> trajectory (next_value v) w" .
  then consider "w = v" | "w \<in> dom nodes" | "trajectory (next_value v) w" by auto
  then show ?case
  proof cases
    case 1
    then show ?thesis by (simp add: trajectory.start)
  next
    case 2
    then show ?thesis by simp
  next
    case 3
    then show ?thesis using v1 by (simp add: trajectory_next)
  qed
qed

lemma buildUpTo_loop_dom_upper:
  "buildUpTo_loop nodes i high = Some m \<Longrightarrow> 1 \<in> dom nodes \<Longrightarrow> w \<in> dom m \<Longrightarrow>
   w \<in> dom nodes \<or> (\<exists>j. sint i \<le> sint j \<and> sint j < sint high \<and> trajectory j w)"
proof (induction nodes i high rule: buildUpTo_loop_induct)
  case (stop nodes i high)
  then show ?case by (simp add: buildUpTo_loop_stop)
next
  case (step nodes i high nodes')
  from step(4) have run: "buildUpTo_loop nodes' (i + 1) high = Some m"
    by (simp add: buildUpTo_loop_step [OF step(1,2)])
  from processValue_dom_mono [OF step(2)] step(5) have one: "1 \<in> dom nodes'" by blast
  from step(1) have lt: "sint i < sint high" by (simp add: word_sless_alt)
  from step(3) [OF run one step(6)]
  consider "w \<in> dom nodes'" | j where "sint (i + 1) \<le> sint j" "sint j < sint high" "trajectory j w"
    by blast
  then show ?case
  proof cases
    case 1
    from processValue_dom_upper [OF step(2,5) 1] lt show ?thesis by auto
  next
    case 2
    then show ?thesis by (auto simp: sint_succ [OF step(1)] intro!: exI [of _ j])
  qed
qed

lemmas word_cmp = word_sless_alt word_sle_eq

lemma processValue_seed2: "processValue (Map.empty(1 \<mapsto> [])) 2 = Some m \<Longrightarrow> m 1 = Some [2]"
  by (auto simp: processValue_miss processValue_hit next_eval push_back_def)

lemma buildUpTo_ok: "0 <s high \<Longrightarrow> \<exists>m. buildUpTo high = Some (Inr m)"
  using buildUpTo_loop_total [of "Map.empty(1 \<mapsto> [])" 2 high]
  by (auto simp: buildUpTo_def word_cmp)

lemma nodes_inv_seed: "nodes_inv (Map.empty(1 \<mapsto> [])) {1}"
  by (simp add: nodes_inv_def)

lemma nodes_inv_closed:
  assumes "nodes_inv m {1}" "n \<in> dom m" "n \<noteq> 1"
  shows "next_value n \<in> dom m"
  using nodes_inv_pushed [OF assms(1,2)] assms(3) by blast

lemma trajectory_in_dom:
  assumes "trajectory j w" "nodes_inv m {1}" "j \<in> dom m"
  shows "w \<in> dom m"
  using assms(1)
proof (induction rule: trajectory.induct)
  case start
  show ?case by (rule assms(3))
next
  case (step v)
  from assms(2) step(3,2) show ?case by (rule nodes_inv_closed)
qed

lemma buildUpTo_loop_seed:
  assumes "0 <s high" "buildUpTo high = Some (Inr m)"
  shows "buildUpTo_loop (Map.empty(1 \<mapsto> [])) 2 high = Some m"
  using assms by (auto simp: buildUpTo_def word_cmp)

lemma buildUpTo_inv:
  assumes "0 <s high" "buildUpTo high = Some (Inr m)"
  shows "nodes_inv m {1}"
  using buildUpTo_loop_seed [OF assms] nodes_inv_seed by (rule buildUpTo_loop_inv)

lemma buildUpTo_keys:
  assumes "0 <s high" "buildUpTo high = Some (Inr m)"
  shows "dom m = {1} \<union> {j. 2 \<le> sint j \<and> sint j < sint high}
            \<union> {w. \<exists>j. 2 \<le> sint j \<and> sint j < sint high \<and> trajectory j w}"
    (is "_ = ?K")
proof (intro set_eqI iffI)
  fix w assume "w \<in> dom m"
  from buildUpTo_loop_dom_upper [OF buildUpTo_loop_seed [OF assms] _ this]
  show "w \<in> ?K" by auto
next
  fix w assume w: "w \<in> ?K"
  note inv = buildUpTo_inv [OF assms]
  from buildUpTo_loop_dom_lower [OF buildUpTo_loop_seed [OF assms]]
  have one: "1 \<in> dom m" and rng: "\<And>j. 2 \<le> sint j \<Longrightarrow> sint j < sint high \<Longrightarrow> j \<in> dom m"
    by auto
  from w consider "w = 1" | "2 \<le> sint w \<and> sint w < sint high"
    | j where "2 \<le> sint j" "sint j < sint high" "trajectory j w" by blast
  then show "w \<in> dom m"
  proof cases
    case 1
    with one show ?thesis by simp
  next
    case 2
    then show ?thesis using rng by blast
  next
    case 3
    from 3(3) inv rng [OF 3(1,2)] show ?thesis by (rule trajectory_in_dom)
  qed
qed

lemma int_mod_2_eq_0: "int_mod v 2 = 0 \<longleftrightarrow> even (sint v)"
proof -
  have "sint v smod 2 = 0 \<or> sint v smod 2 = 1 \<or> sint v smod 2 = - 1"
    by (auto simp: signed_modulo_int_def sgn_if)
  moreover have "sint v smod 2 = 0 \<longleftrightarrow> even (sint v)"
    by (auto simp: signed_modulo_int_def sgn_if)
  ultimately show ?thesis
    by (auto simp: int_mod_def)
qed

lemma sint_in_range: "- 2147483648 \<le> k \<Longrightarrow> k \<le> 2147483647 \<Longrightarrow> sint (word_of_int k :: int32) = k"
  by (simp add: sint_sbintrunc' signed_take_bit_int_eq_self)

lemma next_value_collatz:
  assumes "0 < sint v" "collatz (sint v) \<le> 2147483647"
  shows "sint (next_value v) = collatz (sint v)"
proof (cases "even (sint v)")
  case True
  have "sint v sdiv 2 = sint v div 2"
    using assms(1) by (simp add: signed_divide_int_def sgn_if)
  moreover have "sint (word_of_int (sint v div 2) :: int32) = sint v div 2"
    using assms(1) sint_lt [of v] by (intro sint_in_range) simp_all
  ultimately show ?thesis using True
    by (simp add: next_value_def int_mod_2_eq_0 int_div_def collatz_def)
next
  case False
  have "3 * v + 1 = word_of_int (3 * sint v + 1)" by simp
  moreover have "sint (word_of_int (3 * sint v + 1) :: int32) = 3 * sint v + 1"
    using assms False by (intro sint_in_range) (simp_all add: collatz_def)
  ultimately show ?thesis using False
    by (simp add: next_value_def int_mod_2_eq_0 collatz_def)
qed

lemma collatz_pos: "0 < n \<Longrightarrow> 0 < collatz n"
  by (auto simp: collatz_def elim: evenE)

lemma trajectory_collatz:
  assumes fit: "\<And>v. collatz_reaches (sint j) v \<Longrightarrow> v \<le> 2147483647"
      and j: "2 \<le> sint j" and t: "trajectory j w"
  shows "collatz_reaches (sint j) (sint w) \<and> 0 < sint w"
  using t
proof (induction rule: trajectory.induct)
  case start
  with j show ?case by (simp add: collatz_reaches.start)
next
  case (step v)
  then have r: "collatz_reaches (sint j) (sint v)" and pos: "0 < sint v" by simp_all
  have "v = 1" if "sint v = 1"
    using that by (intro signed_word_eqI [where 'a = int]) simp
  with step(2) have "sint v \<noteq> 1" by blast
  with r have r': "collatz_reaches (sint j) (collatz (sint v))" by (rule collatz_reaches.step)
  then have "collatz (sint v) \<le> 2147483647" by (rule fit)
  with pos have "sint (next_value v) = collatz (sint v)" by (rule next_value_collatz)
  with r' collatz_pos [OF pos] show ?case by simp
qed

lemma collatz_trajectory:
  assumes fit: "\<And>v. collatz_reaches (sint j) v \<Longrightarrow> v \<le> 2147483647"
      and j: "2 \<le> sint j" and r: "collatz_reaches (sint j) v"
  shows "\<exists>w. trajectory j w \<and> sint w = v"
  using r
proof (induction rule: collatz_reaches.induct)
  case start
  show ?case by (blast intro: trajectory.start)
next
  case (step v)
  then obtain w where w: "trajectory j w" "sint w = v" by blast
  from step(2) w(2) have "w \<noteq> 1" by auto
  with w(1) have t: "trajectory j (next_value w)" by (rule trajectory.step)
  from trajectory_collatz [OF fit j w(1)] have pos: "0 < sint w" by simp
  from step(1,2) have "collatz_reaches (sint j) (collatz v)" by (rule collatz_reaches.step)
  then have "collatz (sint w) \<le> 2147483647" unfolding w(2) by (rule fit)
  with pos have "sint (next_value w) = collatz v" unfolding w(2) [symmetric] by (rule next_value_collatz)
  with t show ?case by blast
qed

lemma buildUpTo_stated_keys:
  assumes high: "0 <s high" and m: "buildUpTo high = Some (Inr m)" and fit: "fits_int (sint high)"
  shows "sint ` dom m = stated_keys (sint high)"
proof (intro set_eqI iffI)
  note keys = buildUpTo_keys [OF high m]
  have fit': "v \<le> 2147483647" if "2 \<le> sint j" "sint j < sint high" "collatz_reaches (sint j) v" for j v
    using fit that unfolding fits_int_def by blast
  {
    fix x assume "x \<in> sint ` dom m"
    then obtain w where x: "x = sint w" and "w \<in> dom m" by blast
    then consider "w = 1" | "2 \<le> sint w \<and> sint w < sint high"
      | j where "2 \<le> sint j" "sint j < sint high" "trajectory j w"
      unfolding keys by blast
    then show "x \<in> stated_keys (sint high)"
    proof cases
      case 1
      then show ?thesis by (simp add: x stated_keys_def)
    next
      case 2
      then show ?thesis by (simp add: x stated_keys_def)
    next
      case 3
      from trajectory_collatz [OF fit' [OF 3(1,2)] 3(1,3)]
      have "collatz_reaches (sint j) x" "0 < x" by (simp_all add: x)
      with 3(1,2) show ?thesis
        unfolding stated_keys_def by (cases "x < sint high") force+
    qed
  }
  {
    fix x assume "x \<in> stated_keys (sint high)"
    then consider "x = 1" | "2 \<le> x \<and> x < sint high"
      | i where "2 \<le> i" "i < sint high" "collatz_reaches i x"
      unfolding stated_keys_def by blast
    then show "x \<in> sint ` dom m"
    proof cases
      case 1
      have "(1::int32) \<in> dom m" unfolding keys by simp
      then have "sint (1::int32) \<in> sint ` dom m" by (rule imageI)
      with 1 show ?thesis by simp
    next
      case 2
      with sint_lt [of high] have "sint (word_of_int x :: int32) = x"
        by (intro sint_in_range) simp_all
      moreover from this 2 have "(word_of_int x :: int32) \<in> dom m" unfolding keys by simp
      ultimately show ?thesis by (metis imageI)
    next
      case 3
      with sint_lt [of high] have i: "sint (word_of_int i :: int32) = i"
        by (intro sint_in_range) simp_all
      let ?j = "word_of_int i :: int32"
      from 3 i have j: "2 \<le> sint ?j" "sint ?j < sint high" "collatz_reaches (sint ?j) x" by simp_all
      from collatz_trajectory [OF fit' [OF j(1,2)] j(1,3)]
      obtain w where w: "trajectory ?j w" "sint w = x" by blast
      with j(1,2) have "w \<in> dom m" unfolding keys by blast
      with w(2) show ?thesis by blast
    qed
  }
qed

lemma buildUpTo_once:
  assumes high: "0 <s high" and m: "buildUpTo high = Some (Inr m)" and n: "n \<in> dom m" "n \<noteq> 1"
  shows "\<exists>xs. m (next_value n) = Some xs \<and> count_list xs n = 1"
proof -
  note inv = buildUpTo_inv [OF high m]
  from nodes_inv_pushed [OF inv n(1)] n(2)
  obtain xs where xs: "m (next_value n) = Some xs" "n \<in> set xs" by auto
  from nodes_inv_distinct [OF inv xs(1)] xs(2) have "count_list xs n = 1"
    by (induction xs) auto
  with xs(1) show ?thesis by simp
qed

lemma steps_trajectory: "steps k v = Some w \<Longrightarrow> trajectory v w"
proof (induction k arbitrary: v)
  case 0
  then show ?case by (simp add: trajectory.start)
next
  case (Suc k)
  then have "v \<noteq> 1" and "steps k (next_value v) = Some w" by (simp_all split: if_splits)
  from Suc.IH [OF this(2)] this(1) show ?case by (rule trajectory_next)
qed

lemma steps_numeral:
  "steps (numeral n) v = (if v = 1 then None else steps (pred_numeral n) (next_value v))"
  by (simp add: numeral_eq_Suc)

lemma even_sint: "even (sint (w :: int32)) \<longleftrightarrow> even w"
  using bit_sint_iff [of w 0] by (simp add: bit_0)

lemma next_value_Bit1: "next_value (numeral (Num.Bit1 n)) = 3 * numeral (Num.Bit1 n) + 1"
  by (simp add: next_value_def int_mod_2_eq_0 even_sint)

lemma next_value_Bit0:
  assumes "numeral (Num.Bit0 n) < (2147483648 :: int)"
  shows "next_value (numeral (Num.Bit0 n)) = numeral n"
proof -
  have "- 2147483648 \<le> (numeral (Num.Bit0 n) :: int)"
    by (rule order_trans [of _ 0]) simp_all
  moreover from assms have "numeral (Num.Bit0 n) \<le> (2147483647 :: int)"
    by linarith
  ultimately have "sint (word_of_int (numeral (Num.Bit0 n)) :: int32) = numeral (Num.Bit0 n)"
    by (rule sint_in_range)
  then have s: "sint (numeral (Num.Bit0 n) :: int32) = numeral (Num.Bit0 n)"
    by (simp only: word_of_int_numeral)
  have "(numeral (Num.Bit0 n) :: int) sdiv 2 = numeral n"
    by (simp add: signed_divide_int_def)
  then show ?thesis
    unfolding next_value_def int_mod_2_eq_0 int_div_def s by simp
qed

lemma steps_113383: "steps 120 113383 = Some (- 1812855948)"
  by (simp add: steps_numeral next_value_Bit0 next_value_Bit1)

lemma collatz_reaches_5:
  assumes "collatz_reaches i v" "i = 2 \<or> i = 3 \<or> i = 4"
  shows "v \<in> {1, 2, 3, 4, 5, 8, 10, 16}"
  using assms
proof (induction rule: collatz_reaches.induct)
  case start
  then show ?case by auto
next
  case (step v)
  then show ?case by (auto simp: collatz_def)
qed

lemma fits_int_5: "fits_int 5"
  unfolding fits_int_def
proof (intro allI impI)
  fix i v :: int
  assume a: "2 \<le> i \<and> i < 5 \<and> collatz_reaches i v"
  then have "i = 2 \<or> i = 3 \<or> i = 4" by auto
  moreover from a have "collatz_reaches i v" by simp
  ultimately have "v \<in> {1, 2, 3, 4, 5, 8, 10, 16}" by (rule collatz_reaches_5 [rotated])
  then show "v \<le> 2147483647" by auto
qed

section \<open>Claims about the predecessor map\<close>

text \<open>
  C1, as stated, at \<open>high = 113384\<close>: the call returns a map, and the negative value
  \<open>-1812855948\<close> is one of its keys.  It is what the 32-bit product \<open>3 * 827370449 + 1\<close>
  wraps to, 120 steps after 113383; it is not 1, not in the range, and not at least \<open>high\<close>.
\<close>

theorem buildUpTo_113384_key:
  "\<exists>m. buildUpTo 113384 = Some (Inr m) \<and>
       - 1812855948 \<in> sint ` dom m \<and> - 1812855948 \<notin> stated_keys 113384"
proof -
  have high: "0 <s (113384 :: int32)" by (simp add: word_cmp)
  then obtain m where m: "buildUpTo 113384 = Some (Inr m)"
    using buildUpTo_ok by blast
  have "trajectory 113383 (- 1812855948)"
    using steps_113383 by (rule steps_trajectory)
  then have "(- 1812855948 :: int32) \<in> dom m"
    unfolding buildUpTo_keys [OF high m] by (auto intro!: exI [of _ 113383])
  then have "sint (- 1812855948 :: int32) \<in> sint ` dom m" by (rule imageI)
  then have "- 1812855948 \<in> sint ` dom m" by simp
  moreover have "- 1812855948 \<notin> stated_keys 113384"
    by (simp add: stated_keys_def)
  ultimately show ?thesis using m by blast
qed

text \<open>
  C1, amended: for every \<open>high > 0\<close> the call returns a map \<open>m\<close>.  When no Collatz step
  from a start \<open>2 \<le> i < high\<close> exceeds \<open>2147483647\<close>, the keys of \<open>m\<close> are exactly 1, the
  range \<open>2 \<le> i < high\<close> and the trajectory values of that range that are at least \<open>high\<close>.
  In every case, each key \<open>n \<noteq> 1\<close> has its machine successor as a key, and \<open>n\<close> occurs
  exactly once in the sequence stored there.
\<close>

theorem buildUpTo_keys_links:
  assumes "0 <s high"
  shows "\<exists>m. buildUpTo high = Some (Inr m) \<and>
           (fits_int (sint high) \<longrightarrow> sint ` dom m = stated_keys (sint high)) \<and>
           (\<forall>n\<in>dom m. n \<noteq> 1 \<longrightarrow> (\<exists>xs. m (next_value n) = Some xs \<and> count_list xs n = 1))"
proof -
  from assms obtain m where m: "buildUpTo high = Some (Inr m)"
    using buildUpTo_ok by blast
  have "fits_int (sint high) \<longrightarrow> sint ` dom m = stated_keys (sint high)"
    using buildUpTo_stated_keys [OF assms m] by blast
  moreover have "\<forall>n\<in>dom m. n \<noteq> 1 \<longrightarrow> (\<exists>xs. m (next_value n) = Some xs \<and> count_list xs n = 1)"
    using buildUpTo_once [OF assms m] by blast
  ultimately show ?thesis using m by blast
qed

text \<open>The instance \<open>high = 5\<close>, and the key 3 with its successor 10.\<close>

theorem buildUpTo_keys_links_witness:
  "0 <s (5 :: int32) \<and> fits_int 5 \<and>
   (\<exists>m xs. buildUpTo 5 = Some (Inr m) \<and> sint ` dom m = stated_keys 5 \<and>
      m 10 = Some xs \<and> count_list xs 3 = 1)"
proof -
  have high: "0 <s (5 :: int32)" by (simp add: word_cmp)
  from buildUpTo_keys_links [OF high] obtain m where
    all: "buildUpTo 5 = Some (Inr m) \<and>
       (fits_int (sint (5 :: int32)) \<longrightarrow> sint ` dom m = stated_keys (sint (5 :: int32))) \<and>
       (\<forall>n\<in>dom m. n \<noteq> 1 \<longrightarrow> (\<exists>xs. m (next_value n) = Some xs \<and> count_list xs n = 1))" ..
  from all have m: "buildUpTo 5 = Some (Inr m)" by (rule conjunct1)
  from all have keys: "fits_int (sint (5 :: int32)) \<longrightarrow> sint ` dom m = stated_keys (sint (5 :: int32))"
    by (rule conjunct1 [OF conjunct2])
  from all have once: "\<forall>n\<in>dom m. n \<noteq> 1 \<longrightarrow> (\<exists>xs. m (next_value n) = Some xs \<and> count_list xs n = 1)"
    by (rule conjunct2 [OF conjunct2])
  have s5: "sint (5 :: int32) = 5" by simp
  from keys fits_int_5 have k: "sint ` dom m = stated_keys 5" unfolding s5 by blast
  have "3 \<in> stated_keys 5" by (simp add: stated_keys_def)
  then have "3 \<in> sint ` dom m" unfolding k .
  then obtain w where w: "w \<in> dom m" "3 = sint w" by (rule imageE)
  from w(2) have "w = 3" by (intro signed_word_eqI [where 'a = int]) simp
  with w(1) have "(3 :: int32) \<in> dom m" by simp
  with once have "(3 :: int32) \<noteq> 1 \<longrightarrow> (\<exists>xs. m (next_value 3) = Some xs \<and> count_list xs 3 = 1)"
    by (rule bspec)
  moreover have "next_value 3 = 10" by (simp add: next_eval)
  ultimately obtain xs where "m 10 = Some xs" "count_list xs 3 = 1" by auto
  with m k have "\<exists>m xs. buildUpTo 5 = Some (Inr m) \<and> sint ` dom m = stated_keys 5 \<and>
      m 10 = Some xs \<and> count_list xs 3 = 1" by blast
  with high fits_int_5 show ?thesis by blast
qed

text \<open>
  C5: \<open>buildUpTo high\<close> fails, with the range error, exactly when \<open>high \<le> 0\<close>, and returns
  a map exactly when \<open>0 < high\<close>; a failed call yields the error alone (no map, hence no
  entry).  In particular the calls at 0 and at -5 fail.
\<close>

theorem buildUpTo_fails_iff:
  "(buildUpTo high = Some (Inl InvalidRangeError)) = (high \<le>s 0) \<and>
   (\<exists>m. buildUpTo high = Some (Inr m)) = (0 <s high) \<and>
   buildUpTo 0 = Some (Inl InvalidRangeError) \<and>
   buildUpTo (- 5) = Some (Inl InvalidRangeError)"
proof -
  have "\<exists>m. buildUpTo_loop (Map.empty(1 \<mapsto> [])) 2 high = Some m"
    by (rule buildUpTo_loop_total)
  then show ?thesis
    by (auto simp: buildUpTo_def word_cmp)
qed

text \<open>
  C7, as stated, at \<open>high = 2\<close>: the loop body never runs, and the sequence at key 1 is
  empty although \<open>high > 1\<close>.
\<close>

theorem buildUpTo_2_one_empty: "\<exists>m. buildUpTo 2 = Some (Inr m) \<and> m 1 = Some []"
  by (simp add: buildUpTo_def buildUpTo_loop_stop word_cmp)

text \<open>
  C7, amended: whenever \<open>high > 2\<close>, the sequence at key 1 is non-empty; its first
  element is 2.
\<close>

theorem buildUpTo_one_nonempty:
  assumes "2 <s high"
  shows "\<exists>m ys. buildUpTo high = Some (Inr m) \<and> m 1 = Some (2 # ys)"
proof -
  let ?seed = "Map.empty(1 \<mapsto> []) :: NodesMap"
  from assms have pos: "\<not> high \<le>s 0" by (simp add: word_cmp)
  obtain n where n: "processValue ?seed 2 = Some n"
    using processValue_total by blast
  then have n1: "n 1 = Some [2]" by (rule processValue_seed2)
  obtain m where m: "buildUpTo_loop n (2 + 1) high = Some m"
    using buildUpTo_loop_total by blast
  from buildUpTo_loop_extends [OF m n1] obtain ys where "m 1 = Some ([2] @ ys)" ..
  moreover have "buildUpTo_loop ?seed 2 high = Some m"
    using buildUpTo_loop_step [OF assms n] m by simp
  ultimately show ?thesis using pos by (simp add: buildUpTo_def)
qed

text \<open>The instance \<open>high = 3\<close>.\<close>

theorem buildUpTo_one_nonempty_witness:
  "(2 :: int32) <s 3 \<and> (\<exists>m ys. buildUpTo 3 = Some (Inr m) \<and> m 1 = Some (2 # ys))"
  using buildUpTo_one_nonempty [of 3] by simp

text \<open>
  C10: \<open>processValue\<close> returns for every map and every 32-bit value.  A call that misses
  inserts its key before it recurses, so the number of values of the type that are not yet
  keys drops with every nested call (the measure of the induction rule above).
\<close>

theorem processValue_terminates: "\<exists>nodes'. processValue nodes v = Some nodes'"
  by (rule processValue_total)

section \<open>Properties of the layout\<close>

lemma setPositions_shape:
  "setPositions n x y st = (n', st') \<Longrightarrow>
     width n' = width n \<and> value_of n' = value_of n \<and> positionX n' = x \<and> positionY n' = y \<and>
     map width (above n') = map width (above n) \<and>
     map (\<lambda>c. (positionX c, positionY c)) (above n') =
       stated_positions x y (int_div (- width n) 2) (map width (above n))"
  "setPositions_loop cs x y offsetX st = (cs', st') \<Longrightarrow>
     map width cs' = map width cs \<and>
     map (\<lambda>c. (positionX c, positionY c)) cs' = stated_positions x y offsetX (map width cs)"
proof (induction n x y st and cs x y offsetX st arbitrary: n' st' and cs' st'
    rule: setPositions_setPositions_loop.induct)
  case (3 c cs x y offsetX st)
  let ?posX = "x + offsetX + int_div (width c) 2"
  let ?posY = "y - nodeSpacing - nodeHeight"
  let ?st1 = "st\<lparr>highestX := std_max (highestX st) ?posX, highestY := std_min (highestY st) ?posY\<rparr>"
  obtain c' st2 where c': "setPositions c ?posX ?posY ?st1 = (c', st2)" by force
  obtain cs2 st3 where cs2: "setPositions_loop cs x y (offsetX + (width c + nodeSpacing)) st2 = (cs2, st3)"
    by force
  from "3.prems" c' cs2 have res: "cs' = c' # cs2" "st' = st3" by (simp_all add: Let_def)
  from "3.IH"(1) [OF refl refl refl refl c'] have a: "width c' = width c" "positionX c' = ?posX" "positionY c' = ?posY"
    by simp_all
  from "3.IH"(2) [OF refl refl refl refl c' [symmetric] refl cs2]
  have b: "map width cs2 = map width cs"
    "map (\<lambda>c. (positionX c, positionY c)) cs2 = stated_positions x y (offsetX + (width c + nodeSpacing)) (map width cs)"
    by simp_all
  have "y - nodeSpacing - nodeHeight = y - (nodeHeight + nodeSpacing)" by simp
  then show ?case by (simp add: res a b)
next
  case (1 v ab px py w x y st)
  obtain ab' st1 where l: "setPositions_loop ab x y (int_div (- w) 2) st = (ab', st1)" by force
  from 1(1) [OF l] 1(2) l show ?case by auto
next
  case (2 x y offsetX st)
  then show ?case by simp
qed

lemma descendants_above: "descendants n = concat (map (\<lambda>c. c # descendants c) (above n))"
  by (cases n) simp

lemma setPositions_extrema:
  "setPositions n x y st = (n', st') \<Longrightarrow>
     highestX st' = foldl std_max (highestX st) (map positionX (descendants n')) \<and>
     highestY st' = foldl std_min (highestY st) (map positionY (descendants n'))"
  "setPositions_loop cs x y offsetX st = (cs', st') \<Longrightarrow>
     highestX st' = foldl std_max (highestX st)
        (map positionX (concat (map (\<lambda>c. c # descendants c) cs'))) \<and>
     highestY st' = foldl std_min (highestY st)
        (map positionY (concat (map (\<lambda>c. c # descendants c) cs')))"
proof (induction n x y st and cs x y offsetX st arbitrary: n' st' and cs' st'
    rule: setPositions_setPositions_loop.induct)
  case (1 v ab px py w x y st)
  obtain ab' st1 where l: "setPositions_loop ab x y (int_div (- w) 2) st = (ab', st1)" by force
  from 1(1) [OF l] 1(2) l show ?case by auto
next
  case (2 x y offsetX st)
  then show ?case by simp
next
  case (3 c cs x y offsetX st)
  let ?posX = "x + offsetX + int_div (width c) 2"
  let ?posY = "y - nodeSpacing - nodeHeight"
  let ?st1 = "st\<lparr>highestX := std_max (highestX st) ?posX, highestY := std_min (highestY st) ?posY\<rparr>"
  obtain c' st2 where c': "setPositions c ?posX ?posY ?st1 = (c', st2)" by force
  obtain cs2 st3 where cs2: "setPositions_loop cs x y (offsetX + (width c + nodeSpacing)) st2 = (cs2, st3)"
    by force
  from "3.prems" c' cs2 have res: "cs' = c' # cs2" "st' = st3" by (simp_all add: Let_def)
  from setPositions_shape(1) [OF c'] have p: "positionX c' = ?posX" "positionY c' = ?posY"
    by simp_all
  from "3.IH"(1) [OF refl refl refl refl c']
  have a: "highestX st2 = foldl std_max (std_max (highestX st) ?posX) (map positionX (descendants c'))"
    "highestY st2 = foldl std_min (std_min (highestY st) ?posY) (map positionY (descendants c'))"
    by simp_all
  from "3.IH"(2) [OF refl refl refl refl c' [symmetric] refl cs2]
  have b: "highestX st3 = foldl std_max (highestX st2)
        (map positionX (concat (map (\<lambda>c. c # descendants c) cs2)))"
    "highestY st3 = foldl std_min (highestY st2)
        (map positionY (concat (map (\<lambda>c. c # descendants c) cs2)))"
    by simp_all
  show ?case by (simp add: res a b p)
qed

lemma sint_std_max: "sint (std_max a b) = max (sint a) (sint b)"
  by (simp add: std_max_def word_sless_alt max_def)

lemma sint_std_min: "sint (std_min a b) = min (sint a) (sint b)"
  by (simp add: std_min_def word_sless_alt min_def)

lemma sint_foldl_std_max: "sint (foldl std_max a xs) = Max (insert (sint a) (sint ` set xs))"
proof (induction xs arbitrary: a)
  case Nil
  show ?case by simp
next
  case (Cons b xs)
  have "Max (insert (sint a) (sint ` set (b # xs))) = max (sint a) (Max (insert (sint b) (sint ` set xs)))"
    by simp
  also have "\<dots> = Max (insert (max (sint a) (sint b)) (sint ` set xs))"
    by (cases "set xs = {}") (simp_all add: max.assoc)
  finally show ?case by (simp add: Cons.IH sint_std_max)
qed

lemma sint_foldl_std_min: "sint (foldl std_min a xs) = Min (insert (sint a) (sint ` set xs))"
proof (induction xs arbitrary: a)
  case Nil
  show ?case by simp
next
  case (Cons b xs)
  have "Min (insert (sint a) (sint ` set (b # xs))) = min (sint a) (Min (insert (sint b) (sint ` set xs)))"
    by simp
  also have "\<dots> = Min (insert (min (sint a) (sint b)) (sint ` set xs))"
    by (cases "set xs = {}") (simp_all add: min.assoc)
  finally show ?case by (simp add: Cons.IH sint_std_min)
qed

lemma foldl_add_width: "foldl (\<lambda>acc x. acc + width x) a xs = a + sum_list (map width xs)"
  by (induction xs arbitrary: a) (simp_all add: add.assoc)

lemma textWidth_calculateWidth: "textWidth (calculateWidth n) = textWidth n"
  by (cases n) (simp add: textWidth_def Let_def)

lemma value_of_calculateWidth: "value_of (calculateWidth n) = value_of n"
  by (cases n) (simp add: Let_def)

lemma above_calculateWidth: "above (calculateWidth n) = map calculateWidth (above n)"
  by (cases n) (simp add: Let_def)

lemma std_max_commute: "std_max a b = std_max b a"
  by (auto simp: std_max_def word_sless_alt intro: signed_word_eqI [where 'a = int])

lemma width_calculateWidth: "width (calculateWidth n) = stated_width (calculateWidth n)"
proof (cases n)
  case (Node v ab px py w)
  show ?thesis
  proof (cases "ab = []")
    case True
    with Node show ?thesis by (simp add: stated_width_def textWidth_def)
  next
    case False
    let ?ab' = "map calculateWidth ab"
    let ?w' = "foldl (\<lambda>acc x. acc + width x) (word_of_nat ((length ab - 1) * unat nodeSpacing)) ?ab'"
    let ?tw = "textWidth (Node v ab px py w)"
    have r: "calculateWidth n = Node v ?ab' px py (if ?w' <s ?tw then ?tw else ?w')"
      using Node False by (simp add: Let_def)
    have "?w' = children_span (calculateWidth n)"
      by (simp add: r children_span_def foldl_add_width nodeSpacing_def)
    moreover have "textWidth (calculateWidth n) = ?tw"
      by (simp add: r textWidth_def)
    ultimately have "width (calculateWidth n) = std_max (children_span (calculateWidth n)) (textWidth (calculateWidth n))"
      by (simp add: r std_max_def)
    then have "width (calculateWidth n) = std_max (textWidth (calculateWidth n)) (children_span (calculateWidth n))"
      by (subst std_max_commute)
    moreover have "above (calculateWidth n) \<noteq> []"
      unfolding above_calculateWidth using False Node by simp
    ultimately show ?thesis
      unfolding stated_width_def by simp
  qed
qed

lemma calculateWidth_nodes:
  "n \<in> set (calculateWidth t # descendants (calculateWidth t)) \<Longrightarrow> width n = stated_width n"
proof (induction t arbitrary: n rule: calculateWidth.induct)
  case (1 v ab px py w)
  let ?t = "Node v ab px py w"
  show ?case
  proof (cases "n = calculateWidth ?t")
    case True
    then show ?thesis using width_calculateWidth [of ?t] by simp
  next
    case False
    with "1.prems" have "n \<in> set (descendants (calculateWidth ?t))" by simp
    then obtain c where c: "c \<in> set ab" "n \<in> set (calculateWidth c # descendants (calculateWidth c))"
      unfolding descendants_above [of "calculateWidth ?t"] above_calculateWidth by auto
    then have "ab \<noteq> []" by auto
    from "1.IH" [OF refl this c] show ?thesis .
  qed
qed

lemma digits_length_pos: "0 < length (digits n)"
  by (subst digits.simps) simp

lemma digits_length_le: "n < 10 ^ k \<Longrightarrow> 0 < k \<Longrightarrow> length (digits n) \<le> k"
proof (induction n arbitrary: k rule: digits.induct)
  case (1 n)
  show ?case
  proof (cases "n < 10")
    case True
    with 1(3) show ?thesis by (subst digits.simps) simp
  next
    case False
    from 1(3) obtain j where k: "k = Suc j" by (cases k) auto
    from False 1(2) have "j \<noteq> 0" unfolding k by (cases j) auto
    moreover from 1(2) have "n div 10 < 10 ^ j" unfolding k by (simp add: less_mult_imp_div_less mult.commute)
    ultimately have "length (digits (n div 10)) \<le> j" using 1(1) [OF False] by simp
    with False show ?thesis unfolding k by (subst digits.simps) simp
  qed
qed

lemma to_text_length: "1 \<le> length (to_text v) \<and> length (to_text v) \<le> 11"
proof -
  have "nat (- sint v) < 10 ^ 10" "nat (sint v) < 10 ^ 10"
    using sint_ge [of v] sint_lt [of v] by simp_all
  then have "length (digits (nat (- sint v))) \<le> 10" "length (digits (nat (sint v))) \<le> 10"
    by (simp_all add: digits_length_le)
  then show ?thesis
    using digits_length_pos [of "nat (sint v)"] by (auto simp: to_text_def Suc_le_eq)
qed

lemma sint_textWidth: "sint (textWidth n) = 8 * int (length (to_text (value_of n)))"
proof -
  let ?l = "length (to_text (value_of n))"
  have "sint (word_of_int (int (8 * ?l)) :: int32) = int (8 * ?l)"
    using to_text_length [of "value_of n"] by (intro sint_in_range) simp_all
  then show ?thesis by (simp add: textWidth_def)
qed

lemma textWidth_bounds: "8 \<le> sint (textWidth n)" "sint (textWidth n) \<le> 88"
  using to_text_length [of "value_of n"] by (simp_all add: sint_textWidth)

lemma std_max_ge: "a \<le>s std_max a b" "b \<le>s std_max a b"
  by (simp_all add: word_sle_eq sint_std_max)

lemma stated_width_ge: "textWidth n \<le>s stated_width n"
  by (simp add: stated_width_def std_max_ge)

lemma word_of_int_sum_sint: "word_of_int (\<Sum>c\<leftarrow>cs. sint (width c)) = sum_list (map width cs)"
  by (induction cs) simp_all

lemma word_of_int_exact_span:
  assumes "above n \<noteq> []"
  shows "word_of_int (exact_span n) = children_span n"
proof -
  from assms have "1 \<le> length (above n)"
    by (cases "above n") simp_all
  then have "exact_span n = (\<Sum>c\<leftarrow>above n. sint (width c)) + 10 * int (length (above n) - 1)"
    unfolding exact_span_def by (simp only: of_nat_diff of_nat_1)
  then have "word_of_int (exact_span n) =
      (word_of_int (\<Sum>c\<leftarrow>above n. sint (width c)) + 10 * word_of_nat (length (above n) - 1) :: int32)"
    by (simp only: of_int_add of_int_mult of_int_of_nat_eq of_int_numeral)
  then show ?thesis
    by (simp only: word_of_int_sum_sint children_span_def nodeSpacing_def)
qed

lemma above_descendants: "set (above n) \<subseteq> set (descendants n)"
  unfolding descendants_above [of n] by auto

lemma descendants_trans: "n \<in> set (descendants t) \<Longrightarrow> set (descendants n) \<subseteq> set (descendants t)"
proof (induction t arbitrary: n)
  case (Node v ab px py w)
  from Node.prems obtain c where c: "c \<in> set ab" "n = c \<or> n \<in> set (descendants c)"
    by auto
  from c(2) have "set (descendants n) \<subseteq> set (descendants c)"
    using Node.IH [OF c(1)] by blast
  with c(1) show ?case by auto
qed

lemma above_in_tree:
  assumes "n \<in> set (t # descendants t)" "c \<in> set (above n)"
  shows "c \<in> set (descendants t)"
proof (cases "n = t")
  case True
  with assms(2) above_descendants show ?thesis by blast
next
  case False
  with assms(1) have "n \<in> set (descendants t)" by simp
  from descendants_trans [OF this] assms(2) above_descendants [of n] show ?thesis by blast
qed

lemma Node_ctor_calculateWidth:
  assumes "Node_ctor fuel r nodes = Some (Inr t)"
  shows "\<exists>ab. t = calculateWidth (Node r ab 0 0 0)"
proof (cases fuel)
  case 0
  with assms show ?thesis by simp
next
  case (Suc f)
  with assms show ?thesis
    by (auto split: option.splits sum.splits)
qed

lemma sint_children_span:
  assumes ne: "above n \<noteq> []" and fit: "exact_span n \<le> 2147483647"
      and pos: "\<And>c. c \<in> set (above n) \<Longrightarrow> 0 \<le> sint (width c)"
  shows "sint (children_span n) = exact_span n"
proof -
  have "0 \<le> (\<Sum>c\<leftarrow>above n. sint (width c))"
    using pos by (intro sum_list_nonneg) auto
  moreover from ne have "1 \<le> int (length (above n))" by (cases "above n") simp_all
  ultimately have "0 \<le> exact_span n" unfolding exact_span_def by simp
  then have "sint (word_of_int (exact_span n) :: int32) = exact_span n"
    using fit by (intro sint_in_range) simp_all
  then show ?thesis by (simp only: word_of_int_exact_span [OF ne])
qed

lemmas layout_eval = textWidth_def to_text_def digits.simps nodeSpacing_def nodeHeight_def
  std_max_def std_min_def int_div_def signed_divide_int_def Let_def word_sless_alt word_sle_eq

lemma Node_ctor_example:
  "Node_ctor 3 1 [1 \<mapsto> [2, 3], 2 \<mapsto> [], 3 \<mapsto> []] =
     Some (Inr (Node 1 [Node 2 [] 0 0 8, Node 3 [] 0 0 8] 0 0 26))"
  by (simp add: numeral_3_eq_3 layout_eval)

lemma setPositions_example:
  "setPositions (Node 1 [Node 2 [] 0 0 8, Node 3 [] 0 0 8] 0 0 26) 0 0 \<lparr>highestX = 0, highestY = 0\<rparr> =
     (Node 1 [Node 2 [] (- 9) (- 30) 8, Node 3 [] 9 (- 30) 8] 0 0 26, \<lparr>highestX = 9, highestY = - 30\<rparr>)"
  by (simp add: layout_eval)

lemma above_ctor_Inr:
  "above_ctor f vs nodes = Some (Inr ab) \<Longrightarrow> v \<in> set vs \<Longrightarrow> \<exists>t. Node_ctor f v nodes = Some (Inr t)"
  by (induction vs arbitrary: ab) (auto split: option.splits sum.splits)

lemma above_ctor_Inl:
  "above_ctor f vs nodes = Some (Inl e) \<Longrightarrow> \<exists>v\<in>set vs. Node_ctor f v nodes = Some (Inl e)"
  by (induction vs) (auto split: option.splits sum.splits)

lemma above_ctor_all:
  "(\<And>v. v \<in> set vs \<Longrightarrow> \<exists>t. Node_ctor f v nodes = Some (Inr t)) \<Longrightarrow>
   \<exists>ab. above_ctor f vs nodes = Some (Inr ab)"
proof (induction vs)
  case Nil
  show ?case by simp
next
  case (Cons v vs)
  from Cons.prems [of v] obtain t where "Node_ctor f v nodes = Some (Inr t)" by auto
  moreover from Cons.IH Cons.prems obtain ab where "above_ctor f vs nodes = Some (Inr ab)" by auto
  ultimately show ?case by simp
qed

lemma Node_ctor_Inr_key:
  "Node_ctor fuel r nodes = Some (Inr t) \<Longrightarrow>
   \<exists>f vs ab. fuel = Suc f \<and> nodes r = Some vs \<and> above_ctor f vs nodes = Some (Inr ab)"
  by (cases fuel) (auto split: option.splits sum.splits)

lemma reach_trans: "reach nodes u v \<Longrightarrow> reach nodes r u \<Longrightarrow> reach nodes r v"
  by (induction rule: reach.induct) (auto intro: reach.child)

lemma reach_constructed:
  assumes "reach nodes r v" "Node_ctor fuel r nodes = Some (Inr t)"
  shows "\<exists>fuel' t'. Node_ctor fuel' v nodes = Some (Inr t')"
  using assms(1)
proof (induction rule: reach.induct)
  case root
  from assms(2) show ?case by blast
next
  case (child u vs v)
  then obtain fuel' t' where "Node_ctor fuel' u nodes = Some (Inr t')" by blast
  from Node_ctor_Inr_key [OF this] child(2) obtain f ab where "above_ctor f vs nodes = Some (Inr ab)"
    by auto
  from above_ctor_Inr [OF this child(3)] show ?case by blast
qed

lemma Node_ctor_Inr_reach:
  assumes "Node_ctor fuel r nodes = Some (Inr t)" "reach nodes r v"
  shows "nodes v \<noteq> None"
proof -
  from reach_constructed [OF assms(2,1)] obtain fuel' t' where "Node_ctor fuel' v nodes = Some (Inr t')"
    by blast
  from Node_ctor_Inr_key [OF this] show ?thesis by auto
qed

lemma Node_ctor_Inl_reach:
  "Node_ctor fuel r nodes = Some (Inl e) \<Longrightarrow>
   e = DataIntegrityError \<and> (\<exists>v. reach nodes r v \<and> nodes v = None)"
proof (induction fuel arbitrary: r)
  case 0
  then show ?case by simp
next
  case (Suc f)
  show ?case
  proof (cases "nodes r")
    case None
    with Suc.prems show ?thesis by (auto intro: reach.root)
  next
    case (Some vs)
    with Suc.prems have "above_ctor f vs nodes = Some (Inl e)"
      by (auto split: option.splits sum.splits)
    from above_ctor_Inl [OF this] obtain c where c: "c \<in> set vs" "Node_ctor f c nodes = Some (Inl e)"
      by blast
    from Suc.IH [OF c(2)] obtain v where e: "e = DataIntegrityError" and v: "reach nodes c v" "nodes v = None"
      by blast
    have "reach nodes r r" by (rule reach.root)
    then have "reach nodes r c" using Some c(1) by (rule reach.child)
    with v(1) have "reach nodes r v" by (rule reach_trans)
    with e v(2) show ?thesis by blast
  qed
qed

lemma nesting_last: "nesting nodes p \<Longrightarrow> last p = 1"
  by (induction nodes p rule: nesting.induct) auto

lemma nesting_nth:
  "nodes_inv nodes {1} \<Longrightarrow> nesting nodes p \<Longrightarrow> Suc j < length p \<Longrightarrow>
   next_value (p ! j) = p ! Suc j \<and> p ! j \<noteq> 1"
proof (induction nodes p arbitrary: j rule: nesting.induct)
  case (3 nodes v u us)
  from "3.prems"(2) obtain vs where vs: "nodes u = Some vs" "v \<in> set vs" and rest: "nesting nodes (u # us)"
    by auto
  show ?case
  proof (cases j)
    case 0
    with nodes_inv_elem [OF "3.prems"(1) vs] show ?thesis by auto
  next
    case (Suc i)
    with "3.IH" [OF "3.prems"(1) rest, of i] "3.prems"(3) show ?thesis by simp
  qed
qed simp_all

lemma nesting_distinct: "nodes_inv nodes {1} \<Longrightarrow> nesting nodes p \<Longrightarrow> distinct p"
proof (induction nodes p rule: nesting.induct)
  case (3 nodes v u us)
  from "3.prems"(2) have rest: "nesting nodes (u # us)" by simp
  from "3.IH" [OF "3.prems"(1) rest] have d: "distinct (u # us)" .
  from nesting_nth [OF "3.prems", of 0] have v: "next_value v = u" "v \<noteq> 1" by simp_all
  have "v \<notin> set (u # us)"
  proof
    assume "v \<in> set (u # us)"
    then obtain j where j: "j < length (u # us)" "(u # us) ! j = v"
      unfolding in_set_conv_nth by blast
    have "last (u # us) = (u # us) ! (length (u # us) - 1)"
      by (rule last_conv_nth) simp
    with nesting_last [OF rest] have "(u # us) ! (length (u # us) - 1) = 1" by simp
    with v(2) j(2) have "j \<noteq> length (u # us) - 1" by blast
    with j(1) have sj: "Suc j < length (u # us)" by simp
    from nesting_nth [OF "3.prems"(1) rest sj] j(2) v(1) have "(u # us) ! Suc j = (u # us) ! 0"
      by simp
    with d sj have "Suc j = 0" by (simp only: nth_eq_iff_index_eq)
    then show False by simp
  qed
  with d show ?case by simp
qed simp_all

lemma nesting_dom: "nodes_inv nodes {1} \<Longrightarrow> nesting nodes p \<Longrightarrow> set p \<subseteq> dom nodes"
proof (induction nodes p rule: nesting.induct)
  case (2 nodes v)
  then show ?case using nodes_inv_sub [of nodes "{1}"] by auto
next
  case (3 nodes v u us)
  from "3.prems"(2) obtain vs where vs: "nodes u = Some vs" "v \<in> set vs" and rest: "nesting nodes (u # us)"
    by auto
  from nodes_inv_elem(2) [OF "3.prems"(1) vs] "3.IH" [OF "3.prems"(1) rest] show ?case by simp
qed simp

lemma nesting_length:
  assumes "nodes_inv nodes {1}" "nesting nodes p"
  shows "length p \<le> card (dom nodes)"
proof -
  from nesting_distinct [OF assms] have "length p = card (set p)" by (simp add: distinct_card)
  also from nesting_dom [OF assms] have "\<dots> \<le> card (dom nodes)" by (intro card_mono) simp_all
  finally show ?thesis .
qed

lemma nesting_constructed:
  assumes inv: "nodes_inv nodes {1}"
  shows "nesting nodes (v # p) \<Longrightarrow>
         \<exists>t. Node_ctor (Suc (card (dom nodes) - length (v # p))) v nodes = Some (Inr t)"
proof (induction "card (dom nodes) - length (v # p)" arbitrary: v p rule: less_induct)
  case less
  let ?n = "card (dom nodes) - length (v # p)"
  from nesting_dom [OF inv less.prems] obtain vs where vs: "nodes v = Some vs" by auto
  have "\<exists>t. Node_ctor ?n c nodes = Some (Inr t)" if c: "c \<in> set vs" for c
  proof -
    from c vs less.prems have n: "nesting nodes (c # v # p)" by auto
    from nesting_length [OF inv n] have "length (c # v # p) \<le> card (dom nodes)" .
    then have "card (dom nodes) - length (c # v # p) < ?n"
      and "?n = Suc (card (dom nodes) - length (c # v # p))" by simp_all
    with less.hyps [OF _ n] show ?thesis by simp
  qed
  then obtain ab where "above_ctor ?n vs nodes = Some (Inr ab)"
    using above_ctor_all by blast
  with vs show ?case by simp
qed

lemma buildUpTo_constructs:
  assumes "0 <s high" "buildUpTo high = Some (Inr m)"
  shows "\<exists>t. Node_ctor (card (dom m)) 1 m = Some (Inr t)"
proof -
  note inv = buildUpTo_inv [OF assms]
  have n: "nesting m [1]" by simp
  from nesting_length [OF inv n] have "Suc (card (dom m) - length [1 :: int32]) = card (dom m)" by simp
  with nesting_constructed [OF inv n] show ?thesis by simp
qed

lemma buildUpTo_3: "\<exists>m. buildUpTo 3 = Some (Inr m)"
  by (rule buildUpTo_ok) (simp add: word_cmp)

lemma generateImage_returns:
  assumes "0 <s high" "buildUpTo high = Some (Inr m)"
  shows "\<exists>w h gx gy t. generateImage (card (dom m)) render m out = Some (render w h gx gy t out)"
proof -
  from buildUpTo_constructs [OF assms] obtain t where "Node_ctor (card (dom m)) 1 m = Some (Inr t)" ..
  moreover obtain t' st where "setPositions t 0 0 \<lparr>highestX = 0, highestY = 0\<rparr> = (t', st)"
    by force
  ultimately have "generateImage (card (dom m)) render m out =
      Some (render (width t' + imagePadding * 2) (imagePadding * 2 - highestY st)
        (int_div (width t' + imagePadding * 2) 2) (imagePadding * 2 - highestY st - imagePadding) t' out)"
    by (simp add: generateImage_def Let_def)
  then show ?thesis by blast
qed

lemma exact_width_alt:
  "exact_width n =
     (if above n = [] then 8 * int (length (to_text (value_of n)))
      else max (8 * int (length (to_text (value_of n))))
             ((\<Sum>c\<leftarrow>above n. exact_width c) + 10 * (int (length (above n)) - 1)))"
  by (cases n) (simp add: Let_def)

lemma exact_width_ge_8: "8 \<le> exact_width n"
  using to_text_length [of "value_of n"] by (auto simp: exact_width_alt [of n])

lemma widths_exact_width: "widths_exact n \<Longrightarrow> sint (width n) = exact_width n"
  by (cases n) simp

lemma widths_exact_above: "widths_exact n \<Longrightarrow> c \<in> set (above n) \<Longrightarrow> widths_exact c"
  by (cases n) simp

lemma widths_exactI:
  "sint (width n) = exact_width n \<Longrightarrow> (\<And>c. c \<in> set (above n) \<Longrightarrow> widths_exact c) \<Longrightarrow> widths_exact n"
  by (cases n) simp

lemma sum_list_member_le:
  fixes f :: "'a \<Rightarrow> int"
  assumes "\<And>x. x \<in> set xs \<Longrightarrow> 0 \<le> f x" "c \<in> set xs"
  shows "f c \<le> (\<Sum>x\<leftarrow>xs. f x)"
  using assms
proof (induction xs)
  case Nil
  then show ?case by simp
next
  case (Cons a xs)
  have nn: "0 \<le> (\<Sum>x\<leftarrow>xs. f x)"
    using Cons.prems(1) by (intro sum_list_nonneg) auto
  show ?case
  proof (cases "c = a")
    case True
    with nn show ?thesis by simp
  next
    case False
    with Cons.prems have "c \<in> set xs" by simp
    with Cons.IH Cons.prems(1) have "f c \<le> (\<Sum>x\<leftarrow>xs. f x)" by simp
    moreover have "0 \<le> f a" using Cons.prems(1) by simp
    ultimately show ?thesis by simp
  qed
qed

lemma exact_width_child_le:
  assumes "c \<in> set (above n)"
  shows "exact_width c \<le> exact_width n"
proof -
  have "exact_width c \<le> (\<Sum>x\<leftarrow>above n. exact_width x)"
    using assms exact_width_ge_8 by (intro sum_list_member_le) (auto intro: order_trans [of 0 8])
  moreover from assms have "1 \<le> int (length (above n))" by (cases "above n") auto
  ultimately show ?thesis using assms by (auto simp: exact_width_alt [of n])
qed

lemma exact_width_calculateWidth: "exact_width (calculateWidth t) = exact_width t"
proof (induction t rule: calculateWidth.induct)
  case (1 v ab px py w)
  show ?case
  proof (cases "ab = []")
    case True
    then show ?thesis by (simp add: Let_def)
  next
    case False
    have "map exact_width (map calculateWidth ab) = map exact_width ab"
      using "1.IH" [OF refl False] by simp
    then have "sum_list (map exact_width (map calculateWidth ab)) = sum_list (map exact_width ab)"
      by (rule arg_cong)
    with False show ?thesis by (simp add: Let_def comp_def)
  qed
qed

lemma exact_span_le_width:
  assumes "above n \<noteq> []"
  shows "(\<Sum>c\<leftarrow>above n. exact_width c) + 10 * (int (length (above n)) - 1) \<le> exact_width n"
  using assms by (simp add: exact_width_alt [of n])

lemma calculateWidth_exact:
  "exact_width t \<le> 2147483647 \<Longrightarrow> widths_exact (calculateWidth t)"
proof (induction t rule: calculateWidth.induct)
  case (1 v ab px py w)
  let ?t = "Node v ab px py w"
  define r where "r = calculateWidth ?t"
  have r_above: "above r = map calculateWidth ab"
    unfolding r_def above_calculateWidth by simp
  have r_width: "width r = stated_width r"
    unfolding r_def by (rule width_calculateWidth)
  have r_exact: "exact_width r = exact_width ?t"
    unfolding r_def by (rule exact_width_calculateWidth)
  have kids: "widths_exact c'" if "c' \<in> set (above r)" for c'
  proof -
    from that obtain c where c: "c \<in> set ab" "c' = calculateWidth c"
      unfolding r_above by auto
    then have ne: "ab \<noteq> []" by auto
    from c(1) have "exact_width c \<le> exact_width ?t"
      using exact_width_child_le [of c ?t] by simp
    with "1.prems" have "exact_width c \<le> 2147483647" by simp
    with "1.IH" [OF refl ne c(1)] show ?thesis unfolding c(2) by simp
  qed
  have "sint (width r) = exact_width r"
  proof (cases "above r = []")
    case True
    then show ?thesis
      unfolding r_width stated_width_def
      by (simp add: sint_textWidth exact_width_alt [of r])
  next
    case False
    have sp: "exact_span r = (\<Sum>c\<leftarrow>above r. exact_width c) + 10 * (int (length (above r)) - 1)"
    proof -
      have "map (\<lambda>c. sint (width c)) (above r) = map exact_width (above r)"
        using kids by (intro map_cong refl widths_exact_width)
      then have "(\<Sum>c\<leftarrow>above r. sint (width c)) = (\<Sum>c\<leftarrow>above r. exact_width c)"
        by (rule arg_cong)
      then show ?thesis unfolding exact_span_def by (simp only:)
    qed
    also have "\<dots> \<le> exact_width r" using False by (rule exact_span_le_width)
    also have "\<dots> \<le> 2147483647" using "1.prems" by (simp only: r_exact)
    finally have fit: "exact_span r \<le> 2147483647" .
    have pos: "0 \<le> sint (width c')" if "c' \<in> set (above r)" for c'
      using widths_exact_width [OF kids [OF that]] exact_width_ge_8 [of c'] by simp
    from sint_children_span [OF False fit pos] have "sint (children_span r) = exact_span r" .
    then have "sint (width r) = max (sint (textWidth r)) (exact_span r)"
      unfolding r_width stated_width_def using False
      by (simp add: sint_std_max)
    then show ?thesis
      unfolding sp using False by (simp add: sint_textWidth exact_width_alt [of r])
  qed
  then have "widths_exact r" using kids by (rule widths_exactI)
  then show ?case unfolding r_def .
qed

lemma sdiv_2_nonneg: "0 \<le> (a :: int) \<Longrightarrow> a sdiv 2 = a div 2"
  by (simp add: signed_divide_int_def sgn_if)

lemma sdiv_2_neg: "0 \<le> (a :: int) \<Longrightarrow> (- a) sdiv 2 = - (a div 2)"
  by (simp add: signed_divide_int_def sgn_if)

lemma int_div_2_word: "0 \<le> sint w \<Longrightarrow> int_div w 2 = word_of_int (sint w div 2)"
  by (simp add: int_div_def sdiv_2_nonneg)

lemma sint_minus_pos:
  assumes "0 < sint (w :: int32)"
  shows "sint (- w) = - sint w"
proof -
  have "- w = word_of_int (- sint w)" by simp
  moreover have "sint (word_of_int (- sint w) :: int32) = - sint w"
    using assms sint_lt [of w] by (intro sint_in_range) simp_all
  ultimately show ?thesis by simp
qed

lemma int_div_neg_2_word:
  assumes "0 < sint w"
  shows "int_div (- w) 2 = word_of_int (- (sint w div 2))"
  using assms by (simp add: int_div_def sint_minus_pos sdiv_2_neg sdiv_2_nonneg)

lemma widths_exact_ge_8: "widths_exact n \<Longrightarrow> 8 \<le> sint (width n)"
  using exact_width_ge_8 [of n] by (simp add: widths_exact_width)

lemma widths_exact_span:
  assumes "widths_exact n" "above n \<noteq> []"
  shows "(\<Sum>c\<leftarrow>above n. sint (width c)) + 10 * (int (length (above n)) - 1) \<le> sint (width n)"
proof -
  have "map (\<lambda>c. sint (width c)) (above n) = map exact_width (above n)"
    using widths_exact_above [OF assms(1)] by (intro map_cong refl widths_exact_width)
  then have "(\<Sum>c\<leftarrow>above n. sint (width c)) = (\<Sum>c\<leftarrow>above n. exact_width c)"
    by (rule arg_cong)
  with exact_span_le_width [OF assms(2)] show ?thesis
    by (simp only: widths_exact_width [OF assms(1)])
qed

lemma half_sum_le:
  fixes a b :: int
  assumes "0 \<le> a" "0 \<le> b"
  shows "(a + b) sdiv 2 \<le> a - a div 2 + 10 + b div 2"
proof -
  from assms have "(a + b) sdiv 2 = (a + b) div 2" by (simp add: sdiv_2_nonneg)
  then show ?thesis by linarith
qed

lemma setPositions_apart:
  "setPositions n x y st = (n', st') \<Longrightarrow> widths_exact n \<Longrightarrow>
     - 2147483648 \<le> sint x - sint (width n) div 2 \<Longrightarrow>
     sint x - sint (width n) div 2 + sint (width n) \<le> 2147483647 \<Longrightarrow>
     (\<forall>p\<in>set (n' # descendants n'). siblings_apart p)"
  "setPositions_loop cs x y offsetX st = (cs', st') \<Longrightarrow> (\<forall>c\<in>set cs. widths_exact c) \<Longrightarrow>
     x + offsetX = word_of_int L \<Longrightarrow> - 2147483648 \<le> L \<Longrightarrow>
     (cs \<noteq> [] \<longrightarrow> L + ((\<Sum>c\<leftarrow>cs. sint (width c)) + 10 * (int (length cs) - 1)) \<le> 2147483647) \<Longrightarrow>
     (\<forall>c'\<in>set cs'. \<forall>p\<in>set (c' # descendants c'). siblings_apart p) \<and>
     (\<forall>c'\<in>set cs'. 0 \<le> sint (width c') \<and> L + sint (width c') div 2 \<le> sint (positionX c')) \<and>
     (\<forall>i j. i < j \<and> j < length cs' \<longrightarrow>
        (sint (width (cs' ! i)) + sint (width (cs' ! j))) sdiv 2
          \<le> \<bar>sint (positionX (cs' ! i)) - sint (positionX (cs' ! j))\<bar>)"
proof (induction n x y st and cs x y offsetX st arbitrary: n' st' and cs' st' L
    rule: setPositions_setPositions_loop.induct)
  case (1 v ab px py w x y st)
  let ?n = "Node v ab px py w"
  obtain ab' st1 where l: "setPositions_loop ab x y (int_div (- w) 2) st = (ab', st1)" by force
  with "1.prems"(1) have n': "n' = Node v ab' x y w" by simp
  from widths_exact_ge_8 [OF "1.prems"(2)] have w8: "8 \<le> sint w" by simp
  let ?L = "sint x - sint w div 2"
  have "x + int_div (- w) 2 = word_of_int (sint x) + word_of_int (- (sint w div 2))"
    using w8 by (simp add: int_div_neg_2_word)
  then have xo: "x + int_div (- w) 2 = word_of_int ?L" by simp
  have we: "\<forall>c\<in>set ab. widths_exact c" using "1.prems"(2) by simp
  have lo: "- 2147483648 \<le> ?L" using "1.prems"(3) by simp
  have hi: "ab \<noteq> [] \<longrightarrow> ?L + ((\<Sum>c\<leftarrow>ab. sint (width c)) + 10 * (int (length ab) - 1)) \<le> 2147483647"
  proof
    assume "ab \<noteq> []"
    with widths_exact_span [OF "1.prems"(2)]
    have "(\<Sum>c\<leftarrow>ab. sint (width c)) + 10 * (int (length ab) - 1) \<le> sint w" by simp
    with "1.prems"(4) show "?L + ((\<Sum>c\<leftarrow>ab. sint (width c)) + 10 * (int (length ab) - 1)) \<le> 2147483647"
      by simp
  qed
  from "1.IH" [OF l we xo lo hi]
  have a: "\<forall>c'\<in>set ab'. \<forall>p\<in>set (c' # descendants c'). siblings_apart p"
    and b: "\<forall>i j. i < j \<and> j < length ab' \<longrightarrow>
        (sint (width (ab' ! i)) + sint (width (ab' ! j))) sdiv 2
          \<le> \<bar>sint (positionX (ab' ! i)) - sint (positionX (ab' ! j))\<bar>"
    by blast+
  from b have "siblings_apart n'" unfolding siblings_apart_def n' by simp
  moreover from a have "\<forall>p\<in>set (descendants n'). siblings_apart p"
    unfolding n' by auto
  ultimately show ?case by simp
next
  case (2 x y offsetX st)
  then show ?case by simp
next
  case (3 c cs x y offsetX st)
  let ?posX = "x + offsetX + int_div (width c) 2"
  let ?posY = "y - nodeSpacing - nodeHeight"
  let ?st1 = "st\<lparr>highestX := std_max (highestX st) ?posX, highestY := std_min (highestY st) ?posY\<rparr>"
  let ?off' = "offsetX + (width c + nodeSpacing)"
  obtain c' st2 where c': "setPositions c ?posX ?posY ?st1 = (c', st2)" by force
  obtain cs2 st3 where cs2: "setPositions_loop cs x y ?off' st2 = (cs2, st3)" by force
  from "3.prems"(1) c' cs2 have res: "cs' = c' # cs2" by (simp add: Let_def)
  let ?W = "sint (width c)"
  let ?S = "(\<Sum>c\<leftarrow>cs. sint (width c))"
  from "3.prems"(2) have wec: "widths_exact c" and wecs: "\<forall>c\<in>set cs. widths_exact c" by simp_all
  from widths_exact_ge_8 [OF wec] have W8: "8 \<le> ?W" .
  have Snn: "0 \<le> ?S"
    using wecs widths_exact_ge_8 by (intro sum_list_nonneg) fastforce
  from "3.prems"(5) have tot: "L + (?W + ?S + 10 * int (length cs)) \<le> 2147483647" by simp
  have px: "?posX = word_of_int (L + ?W div 2)"
    using W8 by (simp add: "3.prems"(3) int_div_2_word)
  have "sint (word_of_int (L + ?W div 2) :: int32) = L + ?W div 2"
    using "3.prems"(4) tot W8 Snn by (intro sint_in_range) linarith+
  then have spx: "sint ?posX = L + ?W div 2" by (simp only: px)
  from setPositions_shape(1) [OF c'] have shp: "width c' = width c" "positionX c' = ?posX"
    by simp_all
  have lo1: "- 2147483648 \<le> sint ?posX - ?W div 2" unfolding spx using "3.prems"(4) by simp
  have hi1: "sint ?posX - ?W div 2 + ?W \<le> 2147483647" unfolding spx using tot Snn by simp
  from "3.IH"(1) [OF refl refl refl refl c' wec lo1 hi1]
  have a1: "\<forall>p\<in>set (c' # descendants c'). siblings_apart p" .
  let ?L' = "L + ?W + 10"
  have xo': "x + ?off' = word_of_int ?L'"
  proof -
    have "x + ?off' = (x + offsetX) + (width c + nodeSpacing)" by simp
    also have "\<dots> = word_of_int L + (word_of_int ?W + 10)"
      by (simp add: "3.prems"(3) nodeSpacing_def)
    also have "\<dots> = word_of_int ?L'" by simp
    finally show ?thesis .
  qed
  have lo2: "- 2147483648 \<le> ?L'" using "3.prems"(4) W8 by simp
  have hi2: "cs \<noteq> [] \<longrightarrow> ?L' + (?S + 10 * (int (length cs) - 1)) \<le> 2147483647"
    using tot by simp
  from "3.IH"(2) [OF refl refl refl refl c' [symmetric] refl cs2 wecs xo' lo2 hi2]
  have a2: "\<forall>c'\<in>set cs2. \<forall>p\<in>set (c' # descendants c'). siblings_apart p"
    and c2: "\<forall>c'\<in>set cs2. 0 \<le> sint (width c') \<and> ?L' + sint (width c') div 2 \<le> sint (positionX c')"
    and b2: "\<forall>i j. i < j \<and> j < length cs2 \<longrightarrow>
        (sint (width (cs2 ! i)) + sint (width (cs2 ! j))) sdiv 2
          \<le> \<bar>sint (positionX (cs2 ! i)) - sint (positionX (cs2 ! j))\<bar>"
    by blast+
  have A: "\<forall>c''\<in>set cs'. \<forall>p\<in>set (c'' # descendants c''). siblings_apart p"
    unfolding res using a1 a2 by simp
  have C: "\<forall>c''\<in>set cs'. 0 \<le> sint (width c'') \<and> L + sint (width c'') div 2 \<le> sint (positionX c'')"
  proof
    fix c'' assume "c'' \<in> set cs'"
    then consider "c'' = c'" | "c'' \<in> set cs2" unfolding res by auto
    then show "0 \<le> sint (width c'') \<and> L + sint (width c'') div 2 \<le> sint (positionX c'')"
    proof cases
      case 1
      with W8 spx shp show ?thesis by simp
    next
      case 2
      with c2 have "0 \<le> sint (width c'')" "?L' + sint (width c'') div 2 \<le> sint (positionX c'')"
        by blast+
      with W8 show ?thesis by simp
    qed
  qed
  have B: "(sint (width (cs' ! i)) + sint (width (cs' ! j))) sdiv 2
          \<le> \<bar>sint (positionX (cs' ! i)) - sint (positionX (cs' ! j))\<bar>"
    if ij: "i < j" "j < length cs'" for i j
  proof (cases i)
    case 0
    from ij obtain j' where j': "j = Suc j'" by (cases j) auto
    with ij(2) have jl: "j' < length cs2" unfolding res by simp
    then have "cs2 ! j' \<in> set cs2" by simp
    with c2 have wj: "0 \<le> sint (width (cs2 ! j'))"
      and xj: "?L' + sint (width (cs2 ! j')) div 2 \<le> sint (positionX (cs2 ! j'))" by blast+
    from half_sum_le [of ?W "sint (width (cs2 ! j'))"] W8 wj
    have "(?W + sint (width (cs2 ! j'))) sdiv 2 \<le> ?W - ?W div 2 + 10 + sint (width (cs2 ! j')) div 2"
      by simp
    also have "\<dots> \<le> sint (positionX (cs2 ! j')) - sint ?posX"
      unfolding spx using xj by simp
    also have "\<dots> \<le> \<bar>sint ?posX - sint (positionX (cs2 ! j'))\<bar>" by simp
    finally show ?thesis unfolding res 0 j' by (simp add: shp)
  next
    case (Suc i')
    from ij Suc obtain j' where j': "j = Suc j'" by (cases j) auto
    with ij Suc have "i' < j' \<and> j' < length cs2" unfolding res by simp
    with b2 show ?thesis unfolding res Suc j' by simp
  qed
  from A C B show ?case by blast
qed

lemma stated_positions_replicate:
  "i < k \<Longrightarrow> stated_positions x y off (replicate k w) ! i =
     (x + (off + of_nat i * (w + nodeSpacing)) + int_div w 2, y - (nodeHeight + nodeSpacing))"
proof (induction k arbitrary: i off)
  case 0
  then show ?case by simp
next
  case (Suc k)
  show ?case
  proof (cases i)
    case 0
    then show ?thesis by simp
  next
    case (Suc i')
    with Suc.prems have "i' < k" by simp
    from Suc.IH [OF this, of "off + (w + nodeSpacing)"] show ?thesis
      unfolding Suc by (simp add: algebra_simps)
  qed
qed

lemma leaf_ctor:
  "Node_ctor 1 2 [1 \<mapsto> vs, 2 \<mapsto> []] = Some (Inr (Node 2 [] 0 0 8))"
  by (simp add: layout_eval)

lemma above_ctor_replicate:
  "Node_ctor f v nodes = Some (Inr n) \<Longrightarrow> above_ctor f (replicate k v) nodes = Some (Inr (replicate k n))"
  by (induction k) simp_all

lemma calculateWidth_leaves:
  assumes "0 < k"
  shows "calculateWidth (Node 1 (replicate k (Node 2 [] 0 0 8)) 0 0 0) =
         Node 1 (replicate k (Node 2 [] 0 0 8)) 0 0
           (let w' = word_of_nat ((k - 1) * 10) + word_of_nat k * 8 :: int32
            in if w' <s 8 then 8 else w')"
proof -
  let ?leaf = "Node 2 [] 0 0 8"
  have leaf: "calculateWidth ?leaf = ?leaf"
    by (simp add: layout_eval)
  have tw: "textWidth (Node 1 (replicate k ?leaf) 0 0 0) = 8"
    by (simp add: layout_eval)
  have m: "map calculateWidth (replicate k ?leaf) = replicate k ?leaf"
    by (simp only: map_replicate leaf)
  have f: "foldl (\<lambda>acc x. acc + width x) a (replicate k ?leaf) = a + word_of_nat k * 8" for a :: int32
    by (simp add: foldl_add_width sum_list_replicate)
  from assms have ne: "replicate k ?leaf \<noteq> []" by simp
  have "calculateWidth (Node 1 (replicate k ?leaf) 0 0 0) =
      Node 1 (replicate k ?leaf) 0 0
        (let w' = foldl (\<lambda>acc x. acc + width x)
             (word_of_nat ((length (replicate k ?leaf) - 1) * unat nodeSpacing)) (replicate k ?leaf)
         in if w' <s 8 then 8 else w')"
    using ne by (simp only: calculateWidth.simps tw m Let_def if_False)
  then show ?thesis
    by (simp only: f length_replicate nodeSpacing_def) (simp add: Let_def)
qed

lemma wide_width: "(let w' = word_of_nat ((238609295 - 1) * 10) + word_of_nat 238609295 * 8 :: int32
            in if w' <s 8 then 8 else w') = 8"
  by (simp add: Let_def)

lemma wide_ctor:
  "Node_ctor 2 1 [1 \<mapsto> replicate 238609295 2, 2 \<mapsto> []] =
     Some (Inr (Node 1 (replicate 238609295 (Node 2 [] 0 0 8)) 0 0 8))"
proof -
  let ?m = "[1 \<mapsto> replicate 238609295 2, 2 \<mapsto> []] :: NodesMap"
  have "above_ctor 1 (replicate 238609295 2) ?m = Some (Inr (replicate 238609295 (Node 2 [] 0 0 8)))"
    using leaf_ctor by (rule above_ctor_replicate)
  moreover have "?m 1 = Some (replicate 238609295 2)" by simp
  moreover have "(2 :: nat) = Suc 1" by simp
  ultimately have "Node_ctor 2 1 ?m =
      Some (Inr (calculateWidth (Node 1 (replicate 238609295 (Node 2 [] 0 0 8)) 0 0 0)))"
    by (simp only: Node_ctor.simps option.case sum.case)
  moreover have "0 < (238609295 :: nat)" by simp
  then have "calculateWidth (Node 1 (replicate 238609295 (Node 2 [] 0 0 8)) 0 0 0) =
      Node 1 (replicate 238609295 (Node 2 [] 0 0 8)) 0 0 8"
    by (simp only: calculateWidth_leaves wide_width)
  ultimately show ?thesis by (simp only:)
qed

lemma ctor_fuel_mono:
  "Node_ctor f v nodes = Some res \<Longrightarrow> f \<le> f' \<Longrightarrow> Node_ctor f' v nodes = Some res"
  "above_ctor f vs nodes = Some res' \<Longrightarrow> f \<le> f' \<Longrightarrow> above_ctor f' vs nodes = Some res'"
proof (induction f v nodes and f vs nodes arbitrary: f' res and f' res'
    rule: Node_ctor_above_ctor.induct)
  case (1 v nodes)
  then show ?case by simp
next
  case (2 fuel v nodes)
  from "2.prems"(2) obtain g where g: "f' = Suc g" "fuel \<le> g" by (cases f') auto
  show ?case
  proof (cases "nodes v")
    case None
    with "2.prems"(1) show ?thesis by (simp add: g)
  next
    case (Some vs)
    with "2.prems"(1) obtain ra where ra: "above_ctor fuel vs nodes = Some ra"
      by (auto split: option.splits)
    from "2.IH" [OF Some ra g(2)] have "above_ctor g vs nodes = Some ra" .
    with "2.prems"(1) Some ra show ?thesis by (simp add: g)
  qed
next
  case (3 fuel nodes)
  then show ?case by simp
next
  case (4 fuel v vs nodes)
  from "4.prems"(1) obtain rn where rn: "Node_ctor fuel v nodes = Some rn"
    by (auto split: option.splits)
  from "4.IH"(1) [OF rn "4.prems"(2)] have rn': "Node_ctor f' v nodes = Some rn" .
  show ?case
  proof (cases rn)
    case (Inl e)
    with "4.prems"(1) rn rn' show ?thesis by simp
  next
    case (Inr n)
    with "4.prems"(1) rn obtain ra where ra: "above_ctor fuel vs nodes = Some ra"
      by (auto split: option.splits)
    from "4.IH"(2) [OF rn Inr ra "4.prems"(2)] have "above_ctor f' vs nodes = Some ra" .
    with "4.prems"(1) rn rn' Inr ra show ?thesis by simp
  qed
qed

lemma ctor_deterministic:
  assumes "Node_ctor f v nodes = Some a" "Node_ctor g v nodes = Some b"
  shows "a = b"
proof -
  from ctor_fuel_mono(1) [OF assms(1), of "max f g"] ctor_fuel_mono(1) [OF assms(2), of "max f g"]
  show ?thesis by simp
qed

lemma above_ctor_split_Inl:
  "above_ctor f vs nodes = Some (Inl e) \<Longrightarrow>
   \<exists>xs c ys. vs = xs @ c # ys \<and> (\<forall>x\<in>set xs. \<exists>t. Node_ctor f x nodes = Some (Inr t)) \<and>
      Node_ctor f c nodes = Some (Inl e)"
proof (induction vs)
  case Nil
  then show ?case by simp
next
  case (Cons v vs)
  from Cons.prems obtain rn where rn: "Node_ctor f v nodes = Some rn"
    by (auto split: option.splits)
  show ?case
  proof (cases rn)
    case (Inl e')
    with Cons.prems rn have "Node_ctor f v nodes = Some (Inl e)" by simp
    then have "v # vs = [] @ v # vs \<and> (\<forall>x\<in>set []. \<exists>t. Node_ctor f x nodes = Some (Inr t)) \<and>
        Node_ctor f v nodes = Some (Inl e)" by simp
    then show ?thesis by blast
  next
    case (Inr n)
    with Cons.prems rn have "above_ctor f vs nodes = Some (Inl e)"
      by (auto split: option.splits sum.splits)
    from Cons.IH [OF this] obtain xs c ys where
      s: "vs = xs @ c # ys" "\<forall>x\<in>set xs. \<exists>t. Node_ctor f x nodes = Some (Inr t)"
        "Node_ctor f c nodes = Some (Inl e)" by blast
    from s(1) have "v # vs = (v # xs) @ c # ys" by simp
    moreover from s(2) rn Inr have "\<forall>x\<in>set (v # xs). \<exists>t. Node_ctor f x nodes = Some (Inr t)" by simp
    ultimately show ?thesis using s(3) by blast
  qed
qed

lemma above_ctor_append_Inl:
  assumes "\<forall>x\<in>set xs. \<exists>t. Node_ctor f x nodes = Some (Inr t)"
      and "Node_ctor f c nodes = Some (Inl e)"
  shows "above_ctor f (xs @ c # ys) nodes = Some (Inl e)"
  using assms(1)
proof (induction xs)
  case Nil
  with assms(2) show ?case by simp
next
  case (Cons x xs)
  then obtain t where "Node_ctor f x nodes = Some (Inr t)" by auto
  moreover from Cons have "above_ctor f (xs @ c # ys) nodes = Some (Inl e)" by simp
  ultimately show ?case by simp
qed

lemma common_fuel:
  assumes "\<forall>x\<in>set xs. \<exists>f t. Node_ctor f x nodes = Some (Inr t)"
  shows "\<exists>F. \<forall>x\<in>set xs. \<exists>t. Node_ctor F x nodes = Some (Inr t)"
  using assms
proof (induction xs)
  case Nil
  show ?case by simp
next
  case (Cons x xs)
  then obtain F where F: "\<forall>x\<in>set xs. \<exists>t. Node_ctor F x nodes = Some (Inr t)" by auto
  from Cons.prems obtain f t where f: "Node_ctor f x nodes = Some (Inr t)" by auto
  have "\<exists>t. Node_ctor (max f F) y nodes = Some (Inr t)" if "y \<in> set (x # xs)" for y
  proof (cases "y = x")
    case True
    from ctor_fuel_mono(1) [OF f, of "max f F"] True show ?thesis by simp
  next
    case False
    with that F obtain t' where "Node_ctor F y nodes = Some (Inr t')" by auto
    from ctor_fuel_mono(1) [OF this, of "max f F"] show ?thesis by simp
  qed
  then show ?case by blast
qed

lemma builds_constructed: "builds nodes v \<Longrightarrow> \<exists>f t. Node_ctor f v nodes = Some (Inr t)"
proof (induction rule: builds.induct)
  case (node v vs)
  then have "\<forall>x\<in>set vs. \<exists>f t. Node_ctor f x nodes = Some (Inr t)" by blast
  from common_fuel [OF this] obtain F where "\<forall>x\<in>set vs. \<exists>t. Node_ctor F x nodes = Some (Inr t)" ..
  then obtain ab where "above_ctor F vs nodes = Some (Inr ab)"
    using above_ctor_all [of vs F nodes] by blast
  with node(1) have "Node_ctor (Suc F) v nodes = Some (Inr (calculateWidth (Node v ab 0 0 0)))"
    by simp
  then show ?case by blast
qed

lemma constructed_builds: "Node_ctor f v nodes = Some (Inr t) \<Longrightarrow> builds nodes v"
proof (induction f arbitrary: v t)
  case 0
  then show ?case by simp
next
  case (Suc f)
  from Node_ctor_Inr_key [OF Suc.prems] obtain vs ab where
    vs: "nodes v = Some vs" and ab: "above_ctor f vs nodes = Some (Inr ab)" by auto
  have "\<forall>x\<in>set vs. builds nodes x"
  proof
    fix x assume "x \<in> set vs"
    from above_ctor_Inr [OF ab this] obtain t' where "Node_ctor f x nodes = Some (Inr t')" ..
    then show "builds nodes x" by (rule Suc.IH)
  qed
  with vs show ?case by (rule builds.node)
qed

lemma encountered_trans:
  "encountered nodes u v \<Longrightarrow> encountered nodes r u \<Longrightarrow> encountered nodes r v"
  by (induction rule: encountered.induct) (auto intro: encountered.child)

lemma raised_encountered:
  "Node_ctor f r nodes = Some (Inl e) \<Longrightarrow>
   e = DataIntegrityError \<and> (\<exists>v. encountered nodes r v \<and> nodes v = None)"
proof (induction f arbitrary: r)
  case 0
  then show ?case by simp
next
  case (Suc f)
  show ?case
  proof (cases "nodes r")
    case None
    with Suc.prems show ?thesis by (auto intro: encountered.root)
  next
    case (Some vs)
    with Suc.prems have "above_ctor f vs nodes = Some (Inl e)"
      by (auto split: option.splits sum.splits)
    from above_ctor_split_Inl [OF this] obtain xs c ys where
      s: "vs = xs @ c # ys" "\<forall>x\<in>set xs. \<exists>t. Node_ctor f x nodes = Some (Inr t)"
        "Node_ctor f c nodes = Some (Inl e)" by blast
    from s(2) have b: "\<forall>x\<in>set xs. builds nodes x" by (blast intro: constructed_builds)
    have "encountered nodes r r" by (rule encountered.root)
    moreover from Some s(1) have "nodes r = Some (xs @ c # ys)" by simp
    ultimately have rc: "encountered nodes r c" using b by (rule encountered.child)
    from Suc.IH [OF s(3)] obtain v where e: "e = DataIntegrityError"
      and v: "encountered nodes c v" "nodes v = None" by blast
    from v(1) rc have "encountered nodes r v" by (rule encountered_trans)
    with e v(2) show ?thesis by blast
  qed
qed

lemma encountered_raises_up:
  "encountered nodes r v \<Longrightarrow> \<exists>f. Node_ctor f v nodes = Some (Inl e) \<Longrightarrow>
   \<exists>f. Node_ctor f r nodes = Some (Inl e)"
proof (induction rule: encountered.induct)
  case root
  then show ?case .
next
  case (child u xs v ys)
  from child.prems obtain f where f: "Node_ctor f v nodes = Some (Inl e)" ..
  from child.hyps(3) have "\<forall>x\<in>set xs. \<exists>f t. Node_ctor f x nodes = Some (Inr t)"
    by (blast dest: builds_constructed)
  from common_fuel [OF this] obtain F where F: "\<forall>x\<in>set xs. \<exists>t. Node_ctor F x nodes = Some (Inr t)" ..
  let ?G = "max f F"
  have "\<forall>x\<in>set xs. \<exists>t. Node_ctor ?G x nodes = Some (Inr t)"
  proof
    fix x assume "x \<in> set xs"
    with F obtain t where "Node_ctor F x nodes = Some (Inr t)" by auto
    from ctor_fuel_mono(1) [OF this, of ?G] show "\<exists>t. Node_ctor ?G x nodes = Some (Inr t)" by simp
  qed
  moreover from ctor_fuel_mono(1) [OF f, of ?G] have "Node_ctor ?G v nodes = Some (Inl e)" by simp
  ultimately have "above_ctor ?G (xs @ v # ys) nodes = Some (Inl e)"
    by (rule above_ctor_append_Inl)
  with child.hyps(2) have "Node_ctor (Suc ?G) u nodes = Some (Inl e)" by simp
  then have "\<exists>f. Node_ctor f u nodes = Some (Inl e)" ..
  then show ?case by (rule child.IH)
qed

lemma encountered_absent_raises:
  assumes "encountered nodes r v" "nodes v = None"
  shows "\<exists>f. Node_ctor f r nodes = Some (Inl DataIntegrityError)"
proof -
  from assms(2) have "Node_ctor (Suc 0) v nodes = Some (Inl DataIntegrityError)" by simp
  then have "\<exists>f. Node_ctor f v nodes = Some (Inl DataIntegrityError)" ..
  with assms(1) show ?thesis by (rule encountered_raises_up)
qed

lemma built_never_raises:
  assumes "Node_ctor f r nodes = Some (Inr t)"
  shows "Node_ctor g r nodes \<noteq> Some (Inl e)"
proof
  assume "Node_ctor g r nodes = Some (Inl e)"
  from ctor_deterministic [OF assms this] show False by simp
qed

lemma cyclic_not_builds: "builds [1 \<mapsto> [1, 7]] v \<Longrightarrow> v \<noteq> 1"
  by (induction rule: builds.induct) (auto split: if_splits)

lemma cyclic_encountered: "encountered [1 \<mapsto> [1, 7]] 1 v \<Longrightarrow> v = 1"
proof (induction rule: encountered.induct)
  case root
  show ?case by simp
next
  case (child u xs v ys)
  from child.hyps(2) child.IH have eq: "xs @ v # ys = [1, 7]" by simp
  show ?case
  proof (cases xs)
    case Nil
    with eq show ?thesis by simp
  next
    case (Cons x xs')
    with eq have "x = 1" by simp
    with Cons have "1 \<in> set xs" by simp
    with child.hyps(3) have "builds [1 \<mapsto> [1, 7]] 1" by (rule bspec)
    with cyclic_not_builds show ?thesis by blast
  qed
qed

lemma deep_encountered: "encountered [1 \<mapsto> [2], 2 \<mapsto> [4]] 1 4"
proof -
  let ?m = "[1 \<mapsto> [2], 2 \<mapsto> [4]] :: NodesMap"
  have "encountered ?m 1 1" by (rule encountered.root)
  moreover have "?m 1 = Some ([] @ 2 # [])" by simp
  ultimately have "encountered ?m 1 2" by (rule encountered.child) simp
  moreover have "?m 2 = Some ([] @ 4 # [])" by simp
  ultimately show ?thesis by (rule encountered.child) simp
qed

section \<open>Claims about the layout\<close>

text \<open>
  C2, as stated, on the tree built from \<open>1 \<mapsto> [2, \<dots>, 2]\<close> with 238609295 entries: the
  sum of the children's widths and spacings wraps around in \<open>int\<close>, the root gets the
  width 8, and the x positions \<open>18 * i\<close> wrap as well.  The first child is at \<open>x = 0\<close> and
  the child with index 238609294 at \<open>x = -4\<close>; both have width 8, and
  \<open>|0 - (-4)| = 4 < (8 + 8) / 2\<close>.
\<close>

theorem wide_tree_siblings_overlap:
  "\<exists>t t' st'.
     Node_ctor 2 1 [1 \<mapsto> replicate 238609295 2, 2 \<mapsto> []] = Some (Inr t) \<and>
     setPositions t 0 0 \<lparr>highestX = 0, highestY = 0\<rparr> = (t', st') \<and>
     length (above t') = 238609295 \<and>
     sint (width (above t' ! 0)) = 8 \<and> sint (width (above t' ! 238609294)) = 8 \<and>
     sint (positionX (above t' ! 0)) = 0 \<and> sint (positionX (above t' ! 238609294)) = - 4 \<and>
     \<not> siblings_apart t'"
proof -
  let ?k = "238609295 :: nat"
  let ?t = "Node 1 (replicate ?k (Node 2 [] 0 0 8)) 0 0 8"
  obtain t' st' where run: "setPositions ?t 0 0 \<lparr>highestX = 0, highestY = 0\<rparr> = (t', st')"
    by force
  from setPositions_shape(1) [OF run]
  have ws: "map width (above t') = replicate ?k 8"
    and ps: "map (\<lambda>c. (positionX c, positionY c)) (above t') =
      stated_positions 0 0 (int_div (- 8) 2) (replicate ?k 8)"
    by simp_all
  from ws have len: "length (above t') = ?k"
    by (metis length_map length_replicate)
  have w: "width (above t' ! i) = 8" if "i < ?k" for i
  proof -
    from that len have "width (above t' ! i) = map width (above t') ! i" by simp
    also have "\<dots> = 8" unfolding ws using that by simp
    finally show ?thesis .
  qed
  have p: "positionX (above t' ! i) = of_nat i * 18" if "i < ?k" for i
  proof -
    from that len have "positionX (above t' ! i) = fst (map (\<lambda>c. (positionX c, positionY c)) (above t') ! i)"
      by simp
    also have "\<dots> = fst (stated_positions 0 0 (int_div (- 8) 2) (replicate ?k 8) ! i)"
      by (simp only: ps)
    also have "\<dots> = 0 + (int_div (- 8) 2 + of_nat i * (8 + nodeSpacing)) + int_div 8 2"
      by (simp only: stated_positions_replicate [OF that] fst_conv)
    also have "\<dots> = of_nat i * 18"
      by (simp add: int_div_def signed_divide_int_def nodeSpacing_def)
    finally show ?thesis .
  qed
  have w0: "sint (width (above t' ! 0)) = 8" using w [of 0] by simp
  have w1: "sint (width (above t' ! 238609294)) = 8" using w [of 238609294] by simp
  have p0: "sint (positionX (above t' ! 0)) = 0" using p [of 0] by simp
  have p1: "sint (positionX (above t' ! 238609294)) = - 4" using p [of 238609294] by simp
  have "\<not> siblings_apart t'"
  proof
    assume "siblings_apart t'"
    then have "(0 :: nat) < 238609294 \<and> 238609294 < length (above t') \<longrightarrow>
        (sint (width (above t' ! 0)) + sint (width (above t' ! 238609294))) sdiv 2
          \<le> \<bar>sint (positionX (above t' ! 0)) - sint (positionX (above t' ! 238609294))\<bar>"
      unfolding siblings_apart_def by blast
    then show False
      unfolding len w0 w1 p0 p1 by (simp add: signed_divide_int_def)
  qed
  with wide_ctor run len w0 w1 p0 p1
  have "Node_ctor 2 1 [1 \<mapsto> replicate 238609295 2, 2 \<mapsto> []] = Some (Inr ?t) \<and>
     setPositions ?t 0 0 \<lparr>highestX = 0, highestY = 0\<rparr> = (t', st') \<and>
     length (above t') = 238609295 \<and>
     sint (width (above t' ! 0)) = 8 \<and> sint (width (above t' ! 238609294)) = 8 \<and>
     sint (positionX (above t' ! 0)) = 0 \<and> sint (positionX (above t' ! 238609294)) = - 4 \<and>
     \<not> siblings_apart t'"
    by (intro conjI)
  then show ?thesis by (intro exI)
qed

text \<open>
  C2, amended: take a tree whose width over the integers fits in \<open>int\<close>, with computed
  widths, and place its root at an \<open>x\<close> for which the root's span \<open>[x - width / 2,
  x - width / 2 + width]\<close> fits in \<open>int\<close> (the program places it at 0).  Then after
  \<open>setPositions\<close>, at every node, any two children have x positions at least
  \<open>(w\<^sub>1 + w\<^sub>2) / 2\<close> apart.
\<close>

theorem siblings_never_overlap:
  assumes "exact_width t \<le> 2147483647"
      and "- 2147483648 \<le> sint x - exact_width t div 2"
      and "sint x - exact_width t div 2 + exact_width t \<le> 2147483647"
      and "setPositions (calculateWidth t) x y st = (t', st')"
      and "p \<in> set (t' # descendants t')"
  shows "siblings_apart p"
proof -
  from assms(1) have we: "widths_exact (calculateWidth t)" by (rule calculateWidth_exact)
  then have w: "sint (width (calculateWidth t)) = exact_width t"
    by (simp add: widths_exact_width exact_width_calculateWidth)
  from setPositions_apart(1) [OF assms(4) we] assms(2,3,5) show ?thesis
    unfolding w by blast
qed

text \<open>The instance: the root 1 over the leaves 2 and 3, placed at \<open>(0, 0)\<close>.\<close>

theorem siblings_never_overlap_witness:
  "\<exists>t' st'.
     exact_width (Node 1 [Node 2 [] 0 0 0, Node 3 [] 0 0 0] 0 0 0) = 26 \<and>
     setPositions (calculateWidth (Node 1 [Node 2 [] 0 0 0, Node 3 [] 0 0 0] 0 0 0)) 0 0
        \<lparr>highestX = 0, highestY = 0\<rparr> = (t', st') \<and>
     map (\<lambda>c. (sint (positionX c), sint (width c))) (above t') = [(- 9, 8), (9, 8)] \<and>
     siblings_apart t'"
proof -
  let ?t = "Node 1 [Node 2 [] 0 0 0, Node 3 [] 0 0 0] 0 0 0"
  let ?t' = "Node 1 [Node 2 [] (- 9) (- 30) 8, Node 3 [] 9 (- 30) 8] 0 0 26"
  let ?st' = "\<lparr>highestX = 9, highestY = - 30\<rparr>"
  have ex: "exact_width ?t = 26" by (simp add: layout_eval)
  have cw: "calculateWidth ?t = Node 1 [Node 2 [] 0 0 8, Node 3 [] 0 0 8] 0 0 26"
    by (simp add: layout_eval)
  have run: "setPositions (calculateWidth ?t) 0 0 \<lparr>highestX = 0, highestY = 0\<rparr> = (?t', ?st')"
    unfolding cw by (rule setPositions_example)
  have h1: "exact_width ?t \<le> 2147483647" unfolding ex by simp
  have h2: "- 2147483648 \<le> sint (0 :: int32) - exact_width ?t div 2" unfolding ex by simp
  have h3: "sint (0 :: int32) - exact_width ?t div 2 + exact_width ?t \<le> 2147483647"
    unfolding ex by simp
  have h4: "?t' \<in> set (?t' # descendants ?t')" by simp
  from h1 h2 h3 run h4 have "siblings_apart ?t'" by (rule siblings_never_overlap)
  moreover have "map (\<lambda>c. (sint (positionX c), sint (width c))) (above ?t') = [(- 9, 8), (9, 8)]"
    by simp
  ultimately have "exact_width ?t = 26 \<and>
     setPositions (calculateWidth ?t) 0 0 \<lparr>highestX = 0, highestY = 0\<rparr> = (?t', ?st') \<and>
     map (\<lambda>c. (sint (positionX c), sint (width c))) (above ?t') = [(- 9, 8), (9, 8)] \<and>
     siblings_apart ?t'"
    using ex run by (intro conjI)
  then show ?thesis by (intro exI)
qed

text \<open>
  C3: \<open>setPositions\<close> puts the node at \<open>(x, y)\<close> and its children, in stored order, at the
  positions of the stated formula, with the offset starting at \<open>-width / 2\<close>, row height 20
  and spacing 10; afterwards the static \<open>highestX\<close> is the maximum of its old value and the
  x positions of all nodes placed above, and \<open>highestY\<close> the minimum of its old value and
  their y positions.
\<close>

theorem setPositions_places_children:
  assumes "setPositions n x y st = (n', st')"
  shows "positionX n' = x \<and> positionY n' = y \<and>
         map (\<lambda>c. (positionX c, positionY c)) (above n') =
           stated_positions x y (int_div (- width n) 2) (map width (above n)) \<and>
         nodeHeight = 20 \<and> nodeSpacing = 10 \<and>
         sint (highestX st') = Max (insert (sint (highestX st)) (sint ` positionX ` set (descendants n'))) \<and>
         sint (highestY st') = Min (insert (sint (highestY st)) (sint ` positionY ` set (descendants n')))"
proof -
  from setPositions_extrema(1) [OF assms]
  have "sint (highestX st') = sint (foldl std_max (highestX st) (map positionX (descendants n')))"
    and "sint (highestY st') = sint (foldl std_min (highestY st) (map positionY (descendants n')))"
    by simp_all
  then have "sint (highestX st') = Max (insert (sint (highestX st)) (sint ` positionX ` set (descendants n')))"
    and "sint (highestY st') = Min (insert (sint (highestY st)) (sint ` positionY ` set (descendants n')))"
    by (simp_all add: sint_foldl_std_max sint_foldl_std_min)
  with setPositions_shape(1) [OF assms] show ?thesis
    by (simp add: nodeHeight_def nodeSpacing_def)
qed

text \<open>The instance: a root of width 26 with two leaves of width 8, placed at \<open>(0, 0)\<close>.\<close>

theorem setPositions_places_children_witness:
  "\<exists>n' st'.
     setPositions (Node 1 [Node 2 [] 0 0 8, Node 3 [] 0 0 8] 0 0 26) 0 0 \<lparr>highestX = 0, highestY = 0\<rparr> = (n', st') \<and>
     map (\<lambda>c. (positionX c, positionY c)) (above n') = [(- 9, - 30), (9, - 30)] \<and>
     sint (highestX st') = 9 \<and> sint (highestY st') = - 30"
proof -
  let ?n = "Node 1 [Node 2 [] 0 0 8, Node 3 [] 0 0 8] 0 0 26"
  let ?n' = "Node 1 [Node 2 [] (- 9) (- 30) 8, Node 3 [] 9 (- 30) 8] 0 0 26"
  let ?st' = "\<lparr>highestX = 9, highestY = - 30\<rparr>"
  note run = setPositions_example
  from setPositions_places_children [OF run]
  have "map (\<lambda>c. (positionX c, positionY c)) (above ?n') =
          stated_positions 0 0 (int_div (- width ?n) 2) (map width (above ?n))"
    and "sint (highestX ?st') = Max (insert (sint (highestX \<lparr>highestX = 0, highestY = 0\<rparr>)) (sint ` positionX ` set (descendants ?n')))"
    and "sint (highestY ?st') = Min (insert (sint (highestY \<lparr>highestX = 0, highestY = 0\<rparr>)) (sint ` positionY ` set (descendants ?n')))"
    by blast+
  then have "map (\<lambda>c. (positionX c, positionY c)) (above ?n') = [(- 9, - 30), (9, - 30)]"
    and "sint (highestX ?st') = 9" and "sint (highestY ?st') = - 30"
    by (simp_all add: layout_eval)
  with run have "setPositions ?n 0 0 \<lparr>highestX = 0, highestY = 0\<rparr> = (?n', ?st') \<and>
     map (\<lambda>c. (positionX c, positionY c)) (above ?n') = [(- 9, - 30), (9, - 30)] \<and>
     sint (highestX ?st') = 9 \<and> sint (highestY ?st') = - 30"
    by (intro conjI)
  then show ?thesis by (intro exI)
qed

text \<open>
  C4, as stated, on the tree built from \<open>1 \<mapsto> [2, \<dots>, 2]\<close> with 238609295 entries: the
  children's widths and the spacings between them sum to 4294967300, the 32-bit sum wraps
  to 4, and the root gets the width 8, its text width: less than the sum, and not the
  larger of the two.
\<close>

theorem wide_tree_width_below_span:
  "\<exists>t. Node_ctor 2 1 [1 \<mapsto> replicate 238609295 2, 2 \<mapsto> []] = Some (Inr t) \<and>
       length (above t) = 238609295 \<and> sint (textWidth t) = 8 \<and> sint (width t) = 8 \<and>
       exact_span t = 4294967300 \<and> sint (width t) < exact_span t \<and>
       sint (width t) \<noteq> max (sint (textWidth t)) (exact_span t)"
proof -
  let ?t = "Node 1 (replicate 238609295 (Node 2 [] 0 0 8)) 0 0 8"
  have len: "length (above ?t) = 238609295" by simp
  have tw: "sint (textWidth ?t) = 8" by (simp add: layout_eval)
  have w: "sint (width ?t) = 8" by simp
  have sp: "exact_span ?t = 4294967300"
    by (simp add: exact_span_def sum_list_replicate)
  have lt: "sint (width ?t) < exact_span ?t" unfolding w sp by simp
  have ne: "sint (width ?t) \<noteq> max (sint (textWidth ?t)) (exact_span ?t)" unfolding w sp tw by simp
  from wide_ctor len tw w sp lt ne
  have "Node_ctor 2 1 [1 \<mapsto> replicate 238609295 2, 2 \<mapsto> []] = Some (Inr ?t) \<and>
       length (above ?t) = 238609295 \<and> sint (textWidth ?t) = 8 \<and> sint (width ?t) = 8 \<and>
       exact_span ?t = 4294967300 \<and> sint (width ?t) < exact_span ?t \<and>
       sint (width ?t) \<noteq> max (sint (textWidth ?t)) (exact_span ?t)"
    by (intro conjI)
  then show ?thesis by (intro exI)
qed

text \<open>
  C4, amended: for every node of a constructed tree, the text width is 8 per character of
  the value's decimal text, and the width is at least the text width; without children
  it is the text width; with children whose widths plus the spacings between them sum to
  at most 2147483647, it is the larger of the text width and that sum, and so at least
  that sum.  (In every case it is the stated formula evaluated in the program's wrapping
  \<open>int\<close> arithmetic.)
\<close>

theorem constructed_widths:
  assumes "Node_ctor fuel r nodes = Some (Inr t)" and "n \<in> set (t # descendants t)"
  shows "sint (textWidth n) = 8 * int (length (to_text (value_of n))) \<and>
         sint (textWidth n) \<le> sint (width n) \<and>
         (above n = [] \<longrightarrow> sint (width n) = sint (textWidth n)) \<and>
         (above n \<noteq> [] \<and> exact_span n \<le> 2147483647 \<longrightarrow>
            sint (width n) = max (sint (textWidth n)) (exact_span n) \<and>
            exact_span n \<le> sint (width n)) \<and>
         width n = stated_width n \<and>
         (above n \<noteq> [] \<longrightarrow> children_span n \<le>s width n)"
proof -
  from Node_ctor_calculateWidth [OF assms(1)] obtain ab where t: "t = calculateWidth (Node r ab 0 0 0)" ..
  have w: "width m = stated_width m" if "m \<in> set (t # descendants t)" for m
    using that unfolding t by (rule calculateWidth_nodes)
  have pos: "0 \<le> sint (width c)" if "c \<in> set (above n)" for c
  proof -
    from assms(2) that have "c \<in> set (t # descendants t)" by (simp add: above_in_tree)
    then have "width c = stated_width c" by (rule w)
    with stated_width_ge [of c] textWidth_bounds(1) [of c] show ?thesis
      by (simp add: word_sle_eq)
  qed
  have wn: "width n = stated_width n" using assms(2) by (rule w)
  have ge: "sint (textWidth n) \<le> sint (width n)"
    using stated_width_ge [of n] by (simp add: wn word_sle_eq)
  have leaf: "sint (width n) = sint (textWidth n)" if "above n = []"
    using that by (simp add: wn stated_width_def)
  have ex: "sint (width n) = max (sint (textWidth n)) (exact_span n)"
    if "above n \<noteq> []" "exact_span n \<le> 2147483647"
    using that sint_children_span [OF that pos]
    by (simp add: wn stated_width_def sint_std_max)
  have span: "children_span n \<le>s width n" if "above n \<noteq> []"
    using that by (simp add: wn stated_width_def std_max_ge)
  have 1: "sint (textWidth n) = 8 * int (length (to_text (value_of n)))" by (rule sint_textWidth)
  have 3: "above n = [] \<longrightarrow> sint (width n) = sint (textWidth n)" using leaf by blast
  have 4: "above n \<noteq> [] \<and> exact_span n \<le> 2147483647 \<longrightarrow>
            sint (width n) = max (sint (textWidth n)) (exact_span n) \<and>
            exact_span n \<le> sint (width n)"
  proof
    assume a: "above n \<noteq> [] \<and> exact_span n \<le> 2147483647"
    then have "sint (width n) = max (sint (textWidth n)) (exact_span n)" using ex by blast
    then show "sint (width n) = max (sint (textWidth n)) (exact_span n) \<and> exact_span n \<le> sint (width n)"
      by simp
  qed
  have 6: "above n \<noteq> [] \<longrightarrow> children_span n \<le>s width n" using span by blast
  from 1 ge 3 4 wn 6 show ?thesis by (intro conjI)
qed

text \<open>The instance: the root of the tree built from \<open>1 \<mapsto> [2, 3]\<close>, and its first child.\<close>

theorem constructed_widths_witness:
  "\<exists>t. Node_ctor 3 1 [1 \<mapsto> [2, 3], 2 \<mapsto> [], 3 \<mapsto> []] = Some (Inr t) \<and>
       t \<in> set (t # descendants t) \<and> above t \<noteq> [] \<and> exact_span t = 26 \<and>
       sint (textWidth t) = 8 \<and> sint (width t) = 26 \<and> exact_span t \<le> sint (width t) \<and>
       above (above t ! 0) = [] \<and> sint (width (above t ! 0)) = sint (textWidth (above t ! 0))"
proof -
  let ?t = "Node 1 [Node 2 [] 0 0 8, Node 3 [] 0 0 8] 0 0 26"
  let ?c = "Node 2 [] 0 0 8"
  have t: "?t \<in> set (?t # descendants ?t)" by simp
  have c: "?c \<in> set (?t # descendants ?t)" by simp
  have ne: "above ?t \<noteq> []" by simp
  have ex: "exact_span ?t = 26" by (simp add: exact_span_def)
  have tw: "sint (textWidth ?t) = 8" by (simp add: layout_eval)
  have hyp: "above ?t \<noteq> [] \<and> exact_span ?t \<le> 2147483647" unfolding ex by simp
  note T = constructed_widths [OF Node_ctor_example t]
  from T [THEN conjunct2, THEN conjunct2, THEN conjunct2, THEN conjunct1] hyp
  have r: "sint (width ?t) = max (sint (textWidth ?t)) (exact_span ?t) \<and> exact_span ?t \<le> sint (width ?t)"
    by (rule mp)
  then have w26: "sint (width ?t) = 26" unfolding ex tw by simp
  from r have le: "exact_span ?t \<le> sint (width ?t)" by (rule conjunct2)
  have cl: "above ?c = []" by simp
  note Tc = constructed_widths [OF Node_ctor_example c]
  from Tc [THEN conjunct2, THEN conjunct2, THEN conjunct1] cl
  have wc: "sint (width ?c) = sint (textWidth ?c)" by (rule mp)
  have c0: "above ?t ! 0 = ?c" by simp
  from Node_ctor_example t ne ex tw w26 le cl wc
  have "Node_ctor 3 1 [1 \<mapsto> [2, 3], 2 \<mapsto> [], 3 \<mapsto> []] = Some (Inr ?t) \<and>
       ?t \<in> set (?t # descendants ?t) \<and> above ?t \<noteq> [] \<and> exact_span ?t = 26 \<and>
       sint (textWidth ?t) = 8 \<and> sint (width ?t) = 26 \<and> exact_span ?t \<le> sint (width ?t) \<and>
       above (above ?t ! 0) = [] \<and> sint (width (above ?t ! 0)) = sint (textWidth (above ?t ! 0))"
    unfolding c0 by (intro conjI)
  then show ?thesis by (intro exI)
qed

text \<open>
  C8, as stated: in the tree built from \<open>1 \<mapsto> [2, 3]\<close> the root has width 26 and two
  children of width 8; placed at \<open>(0, 0)\<close>, the second child is at \<open>x = 9\<close>, not at 13.
\<close>

theorem second_child_not_at_13:
  "\<exists>t n' st'.
     Node_ctor 3 1 [1 \<mapsto> [2, 3], 2 \<mapsto> [], 3 \<mapsto> []] = Some (Inr t) \<and>
     map width (above t) = [8, 8] \<and> width t = 26 \<and>
     setPositions t 0 0 \<lparr>highestX = 0, highestY = 0\<rparr> = (n', st') \<and>
     map positionX (above n') = [- 9, 9] \<and> map positionX (above n') \<noteq> [- 9, 13]"
proof -
  let ?t = "Node 1 [Node 2 [] 0 0 8, Node 3 [] 0 0 8] 0 0 26"
  let ?n' = "Node 1 [Node 2 [] (- 9) (- 30) 8, Node 3 [] 9 (- 30) 8] 0 0 26"
  let ?st' = "\<lparr>highestX = 9, highestY = - 30\<rparr>"
  have "map width (above ?t) = [8, 8]" "width ?t = 26"
    "map positionX (above ?n') = [- 9, 9]" "map positionX (above ?n') \<noteq> [- 9, 13]"
    by simp_all
  with Node_ctor_example setPositions_example
  have "Node_ctor 3 1 [1 \<mapsto> [2, 3], 2 \<mapsto> [], 3 \<mapsto> []] = Some (Inr ?t) \<and>
     map width (above ?t) = [8, 8] \<and> width ?t = 26 \<and>
     setPositions ?t 0 0 \<lparr>highestX = 0, highestY = 0\<rparr> = (?n', ?st') \<and>
     map positionX (above ?n') = [- 9, 9] \<and> map positionX (above ?n') \<noteq> [- 9, 13]"
    by (intro conjI)
  then show ?thesis by (intro exI)
qed

text \<open>
  C8, amended: a root of text width 8 with two children each of width 8 gets the width
  \<open>max(8, 8 + 8 + 10) = 26\<close>, and placed at \<open>x = 0\<close> its children are at \<open>x = -13 + 4 = -9\<close>
  and \<open>x = -13 + 8 + 10 + 4 = 9\<close>.
\<close>

theorem two_children_of_width_8:
  assumes "map width (above (calculateWidth n)) = [8, 8]"
      and "textWidth n = 8"
      and "setPositions (calculateWidth n) 0 y st = (n', st')"
  shows "width (calculateWidth n) = 26 \<and> map positionX (above n') = [- 9, 9]"
proof -
  let ?r = "calculateWidth n"
  from assms(1) have "length (map width (above ?r)) = length [8 :: int32, 8]" by (rule arg_cong)
  then have len: "length (above ?r) = 2" by simp
  then have ne: "above ?r \<noteq> []" by auto
  have "sum_list (map width (above ?r)) = 16" unfolding assms(1) by simp
  then have "children_span ?r = 26"
    unfolding children_span_def len by (simp add: nodeSpacing_def)
  moreover have "textWidth ?r = 8" by (simp add: textWidth_calculateWidth assms(2))
  ultimately have "stated_width ?r = 26"
    unfolding stated_width_def using ne by (simp add: std_max_def word_sless_alt)
  then have w: "width ?r = 26" by (simp only: width_calculateWidth)
  from setPositions_shape(1) [OF assms(3)]
  have "map (\<lambda>c. (positionX c, positionY c)) (above n') =
          stated_positions 0 y (int_div (- width ?r) 2) (map width (above ?r))"
    by simp
  then have "map (\<lambda>c. (positionX c, positionY c)) (above n') =
          [(- 9, y - (nodeHeight + nodeSpacing)), (9, y - (nodeHeight + nodeSpacing))]"
    unfolding w assms(1) by (simp add: int_div_def signed_divide_int_def nodeSpacing_def)
  then have "map fst (map (\<lambda>c. (positionX c, positionY c)) (above n')) = [- 9, 9]"
    by simp
  then have "map positionX (above n') = [- 9, 9]"
    by (simp add: comp_def)
  with w show ?thesis by simp
qed

text \<open>The instance: the root 1 over the child 2, which has the child 4, and the leaf 3.\<close>

theorem two_children_of_width_8_witness:
  "\<exists>n n' st'.
     map width (above (calculateWidth n)) = [8, 8] \<and> textWidth n = 8 \<and>
     above (above n ! 0) \<noteq> [] \<and>
     setPositions (calculateWidth n) 0 0 \<lparr>highestX = 0, highestY = 0\<rparr> = (n', st') \<and>
     width (calculateWidth n) = 26 \<and> map positionX (above n') = [- 9, 9]"
proof -
  let ?n = "Node 1 [Node 2 [Node 4 [] 0 0 0] 0 0 0, Node 3 [] 0 0 0] 0 0 0"
  have cw: "calculateWidth ?n = Node 1 [Node 2 [Node 4 [] 0 0 8] 0 0 8, Node 3 [] 0 0 8] 0 0 26"
    by (simp add: layout_eval)
  have ws: "map width (above (calculateWidth ?n)) = [8, 8]" unfolding cw by simp
  have tw: "textWidth ?n = 8" by (simp add: layout_eval)
  have nl: "above (above ?n ! 0) \<noteq> []" by simp
  obtain n' st' where run: "setPositions (calculateWidth ?n) 0 0 \<lparr>highestX = 0, highestY = 0\<rparr> = (n', st')"
    by force
  note T = two_children_of_width_8 [OF ws tw run]
  from T have w: "width (calculateWidth ?n) = 26" by (rule conjunct1)
  from T have p: "map positionX (above n') = [- 9, 9]" by (rule conjunct2)
  from ws tw nl run w p
  have "map width (above (calculateWidth ?n)) = [8, 8] \<and> textWidth ?n = 8 \<and>
     above (above ?n ! 0) \<noteq> [] \<and>
     setPositions (calculateWidth ?n) 0 0 \<lparr>highestX = 0, highestY = 0\<rparr> = (n', st') \<and>
     width (calculateWidth ?n) = 26 \<and> map positionX (above n') = [- 9, 9]"
    by (intro conjI)
  then show ?thesis by (intro exI)
qed

text \<open>
  C6: the constructor raises (for some fuel, and then always the data-integrity error)
  exactly when some value it is called on, the root \<open>r\<close> or a value it comes to while it
  expands the stored sequences in order, is not a key; it returns a tree exactly when the
  root and everything below it builds.  A run that returns a tree has found every value
  it can reach to be a key, and no fuel makes it raise.  For the map of \<open>buildUpTo high\<close>,
  \<open>high > 0\<close>, the construction from the root 1 returns a tree (within a nesting depth of
  the number of keys) and never raises, and every value stored in a sequence is a key.
\<close>

theorem Node_ctor_raises:
  "((\<exists>fuel. Node_ctor fuel r nodes = Some (Inl DataIntegrityError)) \<longleftrightarrow>
      (\<exists>v. encountered nodes r v \<and> nodes v = None)) \<and>
   ((\<exists>fuel t. Node_ctor fuel r nodes = Some (Inr t)) \<longleftrightarrow> builds nodes r) \<and>
   (Node_ctor fuel r nodes = Some (Inl e) \<longrightarrow>
      e = DataIntegrityError \<and> (\<exists>v. reach nodes r v \<and> nodes v = None)) \<and>
   (Node_ctor fuel r nodes = Some (Inr t) \<longrightarrow>
      (\<forall>v. reach nodes r v \<longrightarrow> nodes v \<noteq> None) \<and>
      (\<forall>fuel' e'. Node_ctor fuel' r nodes \<noteq> Some (Inl e'))) \<and>
   (nodes r = None \<longrightarrow> Node_ctor (Suc fuel) r nodes = Some (Inl DataIntegrityError)) \<and>
   (0 <s high \<and> buildUpTo high = Some (Inr m) \<longrightarrow>
      (\<exists>t'. Node_ctor (card (dom m)) 1 m = Some (Inr t')) \<and>
      (\<forall>fuel' e'. Node_ctor fuel' 1 m \<noteq> Some (Inl e')) \<and>
      (\<forall>k xs. m k = Some xs \<longrightarrow> set xs \<subseteq> dom m))"
proof (intro conjI impI allI)
  show "(\<exists>fuel. Node_ctor fuel r nodes = Some (Inl DataIntegrityError)) \<longleftrightarrow>
      (\<exists>v. encountered nodes r v \<and> nodes v = None)"
    using raised_encountered encountered_absent_raises by blast
next
  show "(\<exists>fuel t. Node_ctor fuel r nodes = Some (Inr t)) \<longleftrightarrow> builds nodes r"
    using constructed_builds builds_constructed by blast
next
  assume "Node_ctor fuel r nodes = Some (Inl e)"
  then show "e = DataIntegrityError" "\<exists>v. reach nodes r v \<and> nodes v = None"
    using Node_ctor_Inl_reach by blast+
next
  fix v assume "Node_ctor fuel r nodes = Some (Inr t)" "reach nodes r v"
  then show "nodes v \<noteq> None" by (rule Node_ctor_Inr_reach)
next
  fix fuel' e' assume "Node_ctor fuel r nodes = Some (Inr t)"
  then show "Node_ctor fuel' r nodes \<noteq> Some (Inl e')" by (rule built_never_raises)
next
  assume "nodes r = None"
  then show "Node_ctor (Suc fuel) r nodes = Some (Inl DataIntegrityError)" by simp
next
  assume "0 <s high \<and> buildUpTo high = Some (Inr m)"
  then show "\<exists>t'. Node_ctor (card (dom m)) 1 m = Some (Inr t')"
    using buildUpTo_constructs by blast
next
  fix fuel' e' assume "0 <s high \<and> buildUpTo high = Some (Inr m)"
  then obtain t' where "Node_ctor (card (dom m)) 1 m = Some (Inr t')"
    using buildUpTo_constructs by blast
  then show "Node_ctor fuel' 1 m \<noteq> Some (Inl e')" by (rule built_never_raises)
next
  fix k xs assume a: "0 <s high \<and> buildUpTo high = Some (Inr m)" and k: "m k = Some xs"
  from a have "nodes_inv m {1}" using buildUpTo_inv by blast
  from nodes_inv_elem(2) [OF this k] show "set xs \<subseteq> dom m" by blast
qed

text \<open>
  Instances: a map in which the absent value 4 is met two levels below the root; a map in
  which the root is its own first child, so that the construction never comes to the absent
  value 7 and never raises; a map where the stored value 3 is not a key, and the same map
  completed; a root that is not a key; and the map of \<open>buildUpTo 3\<close>.
\<close>

theorem Node_ctor_raises_witness:
  "(\<exists>fuel. Node_ctor fuel 1 [1 \<mapsto> [2], 2 \<mapsto> [4]] = Some (Inl DataIntegrityError)) \<and>
   encountered [1 \<mapsto> [2], 2 \<mapsto> [4]] 1 4 \<and> ([1 \<mapsto> [2], 2 \<mapsto> [4]] :: NodesMap) 4 = None \<and>
   (\<forall>fuel. Node_ctor fuel 1 [1 \<mapsto> [1, 7]] \<noteq> Some (Inl DataIntegrityError)) \<and>
   Node_ctor 3 1 [1 \<mapsto> [2, 3], 2 \<mapsto> []] = Some (Inl DataIntegrityError) \<and>
   (\<exists>v. reach [1 \<mapsto> [2, 3], 2 \<mapsto> []] 1 v \<and> ([1 \<mapsto> [2, 3], 2 \<mapsto> []] :: NodesMap) v = None) \<and>
   (\<exists>t. Node_ctor 3 1 [1 \<mapsto> [2, 3], 2 \<mapsto> [], 3 \<mapsto> []] = Some (Inr t)) \<and>
   builds [1 \<mapsto> [2, 3], 2 \<mapsto> [], 3 \<mapsto> []] 1 \<and>
   reach [1 \<mapsto> [2, 3], 2 \<mapsto> [], 3 \<mapsto> []] 1 3 \<and>
   ([1 \<mapsto> [2, 3], 2 \<mapsto> [], 3 \<mapsto> []] :: NodesMap) 3 \<noteq> None \<and>
   Node_ctor 1 7 [1 \<mapsto> [2, 3], 2 \<mapsto> []] = Some (Inl DataIntegrityError) \<and>
   0 <s (3 :: int32) \<and>
   (\<exists>m t'. buildUpTo 3 = Some (Inr m) \<and> Node_ctor (card (dom m)) 1 m = Some (Inr t') \<and>
      Node_ctor 5 1 m \<noteq> Some (Inl DataIntegrityError) \<and>
      m 1 \<noteq> None \<and> set (the (m 1)) \<subseteq> dom m)"
proof -
  let ?deep = "[1 \<mapsto> [2], 2 \<mapsto> [4]] :: NodesMap"
  let ?cyc = "[1 \<mapsto> [1, 7]] :: NodesMap"
  let ?bad = "[1 \<mapsto> [2, 3], 2 \<mapsto> []] :: NodesMap"
  let ?good = "[1 \<mapsto> [2, 3], 2 \<mapsto> [], 3 \<mapsto> []] :: NodesMap"
  let ?t = "Node 1 [Node 2 [] 0 0 8, Node 3 [] 0 0 8] 0 0 26"
  let ?E = DataIntegrityError
  have d4: "?deep 4 = None" by simp
  note iff_deep = Node_ctor_raises [of 1 ?deep 0 ?E ?t 0 ?deep, THEN conjunct1]
  from deep_encountered d4 have "\<exists>v. encountered ?deep 1 v \<and> ?deep v = None" by (intro exI conjI)
  with iff_deep have a: "\<exists>fuel. Node_ctor fuel 1 ?deep = Some (Inl ?E)" by (rule iffD2)
  note iff_cyc = Node_ctor_raises [of 1 ?cyc 0 ?E ?t 0 ?cyc, THEN conjunct1]
  have ne: "\<not> (\<exists>v. encountered ?cyc 1 v \<and> ?cyc v = None)"
  proof
    assume "\<exists>v. encountered ?cyc 1 v \<and> ?cyc v = None"
    then obtain v where v: "encountered ?cyc 1 v" "?cyc v = None" by (elim exE conjE)
    from cyclic_encountered [OF v(1)] v(2) show False by simp
  qed
  have b: "\<forall>fuel. Node_ctor fuel 1 ?cyc \<noteq> Some (Inl ?E)"
  proof (intro allI notI)
    fix fuel assume "Node_ctor fuel 1 ?cyc = Some (Inl ?E)"
    then have "\<exists>fuel. Node_ctor fuel 1 ?cyc = Some (Inl ?E)" ..
    with iff_cyc have "\<exists>v. encountered ?cyc 1 v \<and> ?cyc v = None" by (rule iffD1)
    with ne show False ..
  qed
  have bad: "Node_ctor 3 1 ?bad = Some (Inl ?E)"
    by (simp add: numeral_3_eq_3 layout_eval)
  note T_bad = Node_ctor_raises [of 1 ?bad 3 ?E ?t 0 ?bad]
  from T_bad [THEN conjunct2, THEN conjunct2, THEN conjunct1] bad
  have "?E = ?E \<and> (\<exists>v. reach ?bad 1 v \<and> ?bad v = None)" by (rule mp)
  then have 1: "\<exists>v. reach ?bad 1 v \<and> ?bad v = None" by (rule conjunct2)
  have "reach ?good 1 1" by (rule reach.root)
  then have r3: "reach ?good 1 3" by (rule reach.child [where vs = "[2, 3]"]) simp_all
  note T_good = Node_ctor_raises [of 1 ?good 3 ?E ?t 0 ?good]
  from T_good [THEN conjunct2, THEN conjunct2, THEN conjunct2, THEN conjunct1] Node_ctor_example
  have "(\<forall>v. reach ?good 1 v \<longrightarrow> ?good v \<noteq> None) \<and>
      (\<forall>fuel' e'. Node_ctor fuel' 1 ?good \<noteq> Some (Inl e'))" by (rule mp)
  then have "\<forall>v. reach ?good 1 v \<longrightarrow> ?good v \<noteq> None" by (rule conjunct1)
  then have "reach ?good 1 3 \<longrightarrow> ?good 3 \<noteq> None" by (rule spec)
  then have 2: "?good 3 \<noteq> None" using r3 by (rule mp)
  from Node_ctor_example have 5: "\<exists>t. Node_ctor 3 1 ?good = Some (Inr t)" by (intro exI)
  from Node_ctor_example have "\<exists>fuel t. Node_ctor fuel 1 ?good = Some (Inr t)" by (intro exI)
  with T_good [THEN conjunct2, THEN conjunct1] have bg: "builds ?good 1" by (rule iffD1)
  have b7: "?bad 7 = None" by simp
  note T7 = Node_ctor_raises [of 7 ?bad 0 ?E ?t 0 ?bad]
  from T7 [THEN conjunct2, THEN conjunct2, THEN conjunct2, THEN conjunct2, THEN conjunct1] b7
  have "Node_ctor (Suc 0) 7 ?bad = Some (Inl ?E)" by (rule mp)
  then have 3: "Node_ctor 1 7 ?bad = Some (Inl ?E)" by simp
  have high: "0 <s (3 :: int32)" by (simp add: word_cmp)
  from buildUpTo_3 obtain m where m: "buildUpTo 3 = Some (Inr m)" ..
  have "1 \<in> dom m" unfolding buildUpTo_keys [OF high m] by simp
  then obtain ys where ys: "m 1 = Some ys" by blast
  note Tm = Node_ctor_raises [of 1 m 0 ?E ?t 3 m]
  from high m have hm: "0 <s (3 :: int32) \<and> buildUpTo 3 = Some (Inr m)" by (intro conjI)
  from Tm [THEN conjunct2, THEN conjunct2, THEN conjunct2, THEN conjunct2, THEN conjunct2] hm
  have all: "(\<exists>t'. Node_ctor (card (dom m)) 1 m = Some (Inr t')) \<and>
      (\<forall>fuel' e'. Node_ctor fuel' 1 m \<noteq> Some (Inl e')) \<and>
      (\<forall>k xs. m k = Some xs \<longrightarrow> set xs \<subseteq> dom m)" by (rule mp)
  from all obtain t' where t': "Node_ctor (card (dom m)) 1 m = Some (Inr t')" by (elim conjE exE)
  from all have "\<forall>fuel' e'. Node_ctor fuel' 1 m \<noteq> Some (Inl e')" by (elim conjE)
  then have nr: "Node_ctor 5 1 m \<noteq> Some (Inl ?E)" by (elim allE)
  from all have "\<forall>k xs. m k = Some xs \<longrightarrow> set xs \<subseteq> dom m" by (elim conjE)
  then have "m 1 = Some ys \<longrightarrow> set ys \<subseteq> dom m" by (elim allE)
  with ys have sub: "set (the (m 1)) \<subseteq> dom m" by simp
  from ys have m1: "m 1 \<noteq> None" by simp
  from m t' nr m1 sub
  have "buildUpTo 3 = Some (Inr m) \<and> Node_ctor (card (dom m)) 1 m = Some (Inr t') \<and>
      Node_ctor 5 1 m \<noteq> Some (Inl ?E) \<and> m 1 \<noteq> None \<and> set (the (m 1)) \<subseteq> dom m"
    by (intro conjI)
  then have 4: "\<exists>m t'. buildUpTo 3 = Some (Inr m) \<and> Node_ctor (card (dom m)) 1 m = Some (Inr t') \<and>
      Node_ctor 5 1 m \<noteq> Some (Inl ?E) \<and> m 1 \<noteq> None \<and> set (the (m 1)) \<subseteq> dom m"
    by (intro exI)
  from a deep_encountered d4 b bad 1 5 bg r3 2 3 high 4 show ?thesis by (intro conjI)
qed

text \<open>
  C9: \<open>main\<close> exits with code 1 when the argument vector does not have exactly two
  arguments after the program name, when the extraction of the first argument fails, and
  when the value read is not positive, and in no other case; with a positive value and a
  graphics library that throws nothing it exits with code 0.
\<close>

theorem main_exit_codes:
  "(length argv \<noteq> 3 \<longrightarrow> main fuel extract render argv = Some (Exit 1)) \<and>
   (length argv = 3 \<and> extract (argv ! 1) = None \<longrightarrow> main fuel extract render argv = Some (Exit 1)) \<and>
   (length argv = 3 \<and> extract (argv ! 1) = Some upTo \<and> upTo \<le>s 0 \<longrightarrow>
      main fuel extract render argv = Some (Exit 1)) \<and>
   (length argv = 3 \<and> extract (argv ! 1) = Some upTo \<and> 0 <s upTo \<and>
      (\<forall>w h gx gy t. render w h gx gy t (argv ! 2) = None) \<longrightarrow>
      (\<exists>fuel'. main fuel' extract render argv = Some (Exit 0))) \<and>
   (main fuel extract render argv = Some (Exit 1) \<longrightarrow>
      length argv \<noteq> 3 \<or> extract (argv ! 1) = None \<or> (\<exists>v. extract (argv ! 1) = Some v \<and> v \<le>s 0))"
proof (intro conjI impI)
  assume "length argv \<noteq> 3"
  then show "main fuel extract render argv = Some (Exit 1)" by (simp add: main_def)
next
  assume "length argv = 3 \<and> extract (argv ! 1) = None"
  then show "main fuel extract render argv = Some (Exit 1)" by (simp add: main_def)
next
  assume "length argv = 3 \<and> extract (argv ! 1) = Some upTo \<and> upTo \<le>s 0"
  then show "main fuel extract render argv = Some (Exit 1)" by (simp add: main_def)
next
  assume a: "length argv = 3 \<and> extract (argv ! 1) = Some upTo \<and> 0 <s upTo \<and>
      (\<forall>w h gx gy t. render w h gx gy t (argv ! 2) = None)"
  then have pos: "0 <s upTo" "\<not> upTo \<le>s 0" by (simp_all add: word_cmp)
  from buildUpTo_ok [OF pos(1)] obtain m where m: "buildUpTo upTo = Some (Inr m)" ..
  from generateImage_returns [OF pos(1) m, of render "argv ! 2"] a
  have "generateImage (card (dom m)) render m (argv ! 2) = Some None" by auto
  with a pos(2) m have "main (card (dom m)) extract render argv = Some (Exit 0)"
    by (simp add: main_def)
  then show "\<exists>fuel'. main fuel' extract render argv = Some (Exit 0)" ..
next
  assume "main fuel extract render argv = Some (Exit 1)"
  then show "length argv \<noteq> 3 \<or> extract (argv ! 1) = None \<or> (\<exists>v. extract (argv ! 1) = Some v \<and> v \<le>s 0)"
    by (auto simp: main_def split: if_splits option.splits sum.splits)
qed

text \<open>
  Instances: one argument, an argument that is no number, the argument 0, and the
  arguments 3 and a file name.
\<close>

theorem main_exit_codes_witness:
  "main 0 (\<lambda>s. if s = ''3'' then Some 3 else if s = ''0'' then Some 0 else None)
      (\<lambda>w h gx gy t out. None) [''collatz'', ''3''] = Some (Exit 1) \<and>
   main 0 (\<lambda>s. if s = ''3'' then Some 3 else if s = ''0'' then Some 0 else None)
      (\<lambda>w h gx gy t out. None) [''collatz'', ''x'', ''out.png''] = Some (Exit 1) \<and>
   main 0 (\<lambda>s. if s = ''3'' then Some 3 else if s = ''0'' then Some 0 else None)
      (\<lambda>w h gx gy t out. None) [''collatz'', ''0'', ''out.png''] = Some (Exit 1) \<and>
   (\<exists>fuel'. main fuel' (\<lambda>s. if s = ''3'' then Some 3 else if s = ''0'' then Some 0 else None)
      (\<lambda>w h gx gy t out. None) [''collatz'', ''3'', ''out.png''] = Some (Exit 0))"
proof -
  let ?ex = "\<lambda>s. if s = ''3'' then Some 3 else if s = ''0'' then Some (0 :: int32) else None"
  let ?re = "\<lambda>(w :: int32) (h :: int32) (gx :: int32) (gy :: int32) (t :: Node) (out :: string). None :: error option"
  from main_exit_codes [of "[''collatz'', ''3'']" 0 ?ex ?re]
  have 1: "main 0 ?ex ?re [''collatz'', ''3''] = Some (Exit 1)" by simp
  from main_exit_codes [of "[''collatz'', ''x'', ''out.png'']" 0 ?ex ?re]
  have 2: "main 0 ?ex ?re [''collatz'', ''x'', ''out.png''] = Some (Exit 1)" by simp
  from main_exit_codes [of "[''collatz'', ''0'', ''out.png'']" 0 ?ex ?re 0]
  have 3: "main 0 ?ex ?re [''collatz'', ''0'', ''out.png''] = Some (Exit 1)" by (simp add: word_cmp)
  from main_exit_codes [of "[''collatz'', ''3'', ''out.png'']" 0 ?ex ?re 3]
  have 4: "\<exists>fuel'. main fuel' ?ex ?re [''collatz'', ''3'', ''out.png''] = Some (Exit 0)"
    by (simp add: word_cmp)
  from 1 2 3 4 show ?thesis by (intro conjI)
qed

end
